theory Spec2Isabelle
  imports Complex_Main "HOL-Library.Word"
begin

section \<open>Numbers\<close>

text \<open>
  A JavaScript \<open>number\<close> is an IEEE 754 binary64 value, and every arithmetic operation
  returns the exact result rounded to the nearest such value, a tie going to the one with
  the even significand. \<open>fl\<close> is that rounding on the reals: a significand of 53 bits, an
  exponent of at least \<open>-1022\<close> (below it the spacing stays \<open>2 ^ (-1074)\<close>). The quantities
  of the program stay far below \<open>2 ^ 1024\<close>, so there is no overflow to infinity to model,
  and none of its operations yields NaN on the inputs considered. A decimal literal
  denotes the rounding of its value.

  The arithmetic on pixel values (the colour conversions, the posterizer and the edge
  detector) is modelled with all its roundings. The control values and the geometry
  handed to the canvas (coordinates, angles, radii, opacities, the halftone spacing) stand
  for the reals they denote, and the arithmetic on them is exact.
\<close>

definition round_even :: "real \<Rightarrow> int" where
  "round_even x =
     (let f = \<lfloor>x\<rfloor>
      in if x - of_int f < 1 / 2 then f
         else if 1 / 2 < x - of_int f then f + 1
         else if even f then f
         else f + 1)"

definition expo :: "real \<Rightarrow> int" where
  "expo x = max (- 1022) \<lfloor>log 2 \<bar>x\<bar>\<rfloor>"

definition ulp :: "real \<Rightarrow> real" where
  "ulp x = 2 powr (of_int (expo x) - 52)"

definition fl :: "real \<Rightarrow> real" where
  "fl x = (if x = 0 then 0 else of_int (round_even (x / ulp x)) * ulp x)"

text \<open>The largest relative error of a rounding, away from underflow.\<close>

definition unit_roundoff :: real where
  "unit_roundoff = 1 / 2 ^ 53"

text \<open>
  \<open>Math.round\<close> rounds halves towards plus infinity, \<open>Math.floor\<close> is the floor; both are
  exact on a binary64 argument.
\<close>

definition Math_round :: "real \<Rightarrow> real" where
  "Math_round x = of_int \<lfloor>x + 1 / 2\<rfloor>"

definition Math_floor :: "real \<Rightarrow> real" where
  "Math_floor x = of_int \<lfloor>x\<rfloor>"

section \<open>Colour conversions\<close>

record RGB =
  rgb_r :: real
  rgb_g :: real
  rgb_b :: real

record HSL =
  hsl_h :: real
  hsl_s :: real
  hsl_l :: real

definition clamp01 :: "real \<Rightarrow> real" where
  "clamp01 v = max 0 (min 1 v)"

text \<open>
  The two conversions of the program, every division, sum, difference and product rounded
  in the order in which the source evaluates them. The literal \<open>0.5\<close>, the integers and a
  product by 2 are exact; \<open>1 / 6\<close>, \<open>1 / 3\<close> and \<open>2 / 3\<close> are quotients that the program
  computes, so they are rounded.
\<close>

definition rgbToHsl :: "real \<Rightarrow> real \<Rightarrow> real \<Rightarrow> HSL" where
  "rgbToHsl r0 g0 b0 =
     (let r = fl (r0 / 255); g = fl (g0 / 255); b = fl (b0 / 255);
          mx = max (max r g) b; mn = min (min r g) b;
          l = fl (fl (mx + mn) / 2)
      in if mx \<noteq> mn then
           (let d = fl (mx - mn);
                s = (if l > 1 / 2 then fl (d / fl (fl (2 - mx) - mn))
                     else fl (d / fl (mx + mn)));
                h = (if mx = r then fl (fl (fl (g - b) / d) + (if g < b then 6 else 0))
                     else if mx = g then fl (fl (fl (b - r) / d) + 2)
                     else if mx = b then fl (fl (fl (r - g) / d) + 4)
                     else 0)
            in \<lparr>hsl_h = fl (h / 6), hsl_s = s, hsl_l = l\<rparr>)
         else \<lparr>hsl_h = 0, hsl_s = 0, hsl_l = l\<rparr>)"

definition hue2rgb :: "real \<Rightarrow> real \<Rightarrow> real \<Rightarrow> real" where
  "hue2rgb p q t0 =
     (let t1 = (if t0 < 0 then fl (t0 + 1) else t0);
          t = (if t1 > 1 then fl (t1 - 1) else t1)
      in if t < fl (1 / 6) then fl (p + fl (fl (fl (q - p) * 6) * t))
         else if t < 1 / 2 then q
         else if t < fl (2 / 3) then fl (p + fl (fl (fl (q - p) * fl (fl (2 / 3) - t)) * 6))
         else p)"

definition hslToRgb :: "real \<Rightarrow> real \<Rightarrow> real \<Rightarrow> RGB" where
  "hslToRgb h s l =
     (let (r, g, b) =
            (if s = 0 then (l, l, l)
             else (let q = (if l < 1 / 2 then fl (l * fl (1 + s))
                            else fl (fl (l + s) - fl (l * s)));
                       p = fl (fl (2 * l) - q)
                   in (hue2rgb p q (fl (h + fl (1 / 3))), hue2rgb p q h,
                       hue2rgb p q (fl (h - fl (1 / 3))))))
      in \<lparr>rgb_r = Math_round (fl (r * 255)), rgb_g = Math_round (fl (g * 255)),
          rgb_b = Math_round (fl (b * 255))\<rparr>)"

subsection \<open>The conversions in exact arithmetic\<close>

text \<open>
  The formulas of \<open>rgbToHsl\<close> and \<open>hue2rgb\<close> over the reals, with no rounding: the
  reference against which the rounding errors of the program are bounded.
\<close>

definition rgbToHsl_real :: "real \<Rightarrow> real \<Rightarrow> real \<Rightarrow> HSL" where
  "rgbToHsl_real r0 g0 b0 =
     (let r = r0 / 255; g = g0 / 255; b = b0 / 255;
          mx = max (max r g) b; mn = min (min r g) b;
          l = (mx + mn) / 2
      in if mx \<noteq> mn then
           (let d = mx - mn;
                s = (if l > 1 / 2 then d / (2 - mx - mn) else d / (mx + mn));
                h = (if mx = r then (g - b) / d + (if g < b then 6 else 0)
                     else if mx = g then (b - r) / d + 2
                     else if mx = b then (r - g) / d + 4
                     else 0)
            in \<lparr>hsl_h = h / 6, hsl_s = s, hsl_l = l\<rparr>)
         else \<lparr>hsl_h = 0, hsl_s = 0, hsl_l = l\<rparr>)"

definition hue2rgb_real :: "real \<Rightarrow> real \<Rightarrow> real \<Rightarrow> real" where
  "hue2rgb_real p q t0 =
     (let t1 = (if t0 < 0 then t0 + 1 else t0);
          t = (if t1 > 1 then t1 - 1 else t1)
      in if t < 1 / 6 then p + (q - p) * 6 * t
         else if t < 1 / 2 then q
         else if t < 2 / 3 then p + (q - p) * (2 / 3 - t) * 6
         else p)"

text \<open>
  The hue ramp of \<open>hue2rgb\<close> in closed form: a trapezoid that rises on \<open>[0, 1/6]\<close>, stays
  at 1 up to \<open>1/2\<close> and falls on \<open>[1/2, 2/3]\<close>, repeated with period 1.
\<close>

definition trapezoid :: "real \<Rightarrow> real" where
  "trapezoid t = clamp01 (min (6 * t) (4 - 6 * t))"

definition hue_wave :: "real \<Rightarrow> real" where
  "hue_wave t = trapezoid (t + 1) + trapezoid t + trapezoid (t - 1)"


section \<open>Pixel buffers\<close>

text \<open>
  An \<open>ImageData\<close> object: its dimensions and its \<open>Uint8ClampedArray\<close> of
  \<open>4 * width * height\<close> bytes, four (red, green, blue, alpha) per pixel, row by row.
  The browser only ever hands out objects of that shape.
\<close>

type_synonym u8 = "8 word"

record ImageData =
  width :: nat
  height :: nat
  data :: "u8 list"

definition wf_image :: "ImageData \<Rightarrow> bool" where
  "wf_image img = (0 < width img \<and> 0 < height img \<and>
     length (data img) = 4 * width img * height img)"

text \<open>Reading a byte of the array gives a number.\<close>

definition byte :: "u8 list \<Rightarrow> nat \<Rightarrow> real" where
  "byte d i = real (unat (d ! i))"

text \<open>
  Storing a number into a \<open>Uint8ClampedArray\<close> (ECMAScript \<open>ToUint8Clamp\<close>): clamp to
  \<open>[0, 255]\<close>, then round to the nearest integer, a tie going to the even one.
\<close>

definition ToUint8Clamp :: "real \<Rightarrow> u8" where
  "ToUint8Clamp x =
     (if x \<le> 0 then 0
      else if 255 \<le> x then 255
      else (let f = \<lfloor>x\<rfloor>
            in if of_int f + 1 / 2 < x then word_of_int (f + 1)
               else if x < of_int f + 1 / 2 then word_of_int f
               else if even f then word_of_int f
               else word_of_int (f + 1)))"

datatype error = IndexSizeError | RangeError | TypeError | SyntaxError

text \<open>
  \<open>ctx.createImageData(w, h)\<close>: a transparent black buffer; the call throws
  \<open>IndexSizeError\<close> when a dimension is zero, and so does \<open>ctx.getImageData(0, 0, w, h)\<close>.
  The program reads a canvas only with the canvas's own width and height, so the snapshot
  \<open>getImageData\<close> returns is the whole canvas content, given here as an \<open>ImageData\<close>.
\<close>

definition createImageData :: "nat \<Rightarrow> nat \<Rightarrow> error + ImageData" where
  "createImageData w h =
     (if w = 0 \<or> h = 0 then Inl IndexSizeError
      else Inr \<lparr>width = w, height = h, data = replicate (4 * w * h) 0\<rparr>)"

definition getImageData :: "ImageData \<Rightarrow> nat \<Rightarrow> nat \<Rightarrow> error + ImageData" where
  "getImageData canvas w h =
     (if w = 0 \<or> h = 0 then Inl IndexSizeError else Inr canvas)"

text \<open>
  \<open>target.set(source)\<close> on typed arrays: throws \<open>RangeError\<close> when the source is longer
  than the target, and overwrites the target's first elements otherwise.
\<close>

definition typed_array_set :: "u8 list \<Rightarrow> u8 list \<Rightarrow> error + u8 list" where
  "typed_array_set target source =
     (if length target < length source then Inl RangeError
      else Inr (source @ drop (length source) target))"

subsection \<open>The store of buffer objects\<close>

text \<open>
  \<open>ImageData\<close> objects are passed by reference and mutated through their \<open>data\<close>
  array. The store lists the objects allocated so far; a reference is an index into it.
\<close>

type_synonym ref = nat
type_synonym store = "ImageData list"

definition alloc :: "store \<Rightarrow> ImageData \<Rightarrow> store \<times> ref" where
  "alloc \<sigma> img = (\<sigma> @ [img], length \<sigma>)"

definition copyImageData :: "store \<Rightarrow> ref \<Rightarrow> error + store \<times> ref" where
  "copyImageData \<sigma> src =
     (case createImageData (width (\<sigma> ! src)) (height (\<sigma> ! src)) of
        Inl e \<Rightarrow> Inl e
      | Inr dst \<Rightarrow>
          (case typed_array_set (data dst) (data (\<sigma> ! src)) of
             Inl e \<Rightarrow> Inl e
           | Inr d \<Rightarrow> Inr (alloc \<sigma> (dst\<lparr>data := d\<rparr>))))"

section \<open>Posterizer\<close>

definition posterize_channel :: "real \<Rightarrow> real \<Rightarrow> u8" where
  "posterize_channel step v = ToUint8Clamp (fl (Math_round (fl (v / step)) * step))"

text \<open>
  The loop \<open>for (i = 0; i < d.length; i += 4)\<close> over the array, which it overwrites as it
  goes. The array of an \<open>ImageData\<close> has a multiple of 4 elements, so the reads at
  \<open>i + 1\<close>, \<open>i + 2\<close> and \<open>i + 3\<close> are in range.
\<close>

function posterize_loop :: "real \<Rightarrow> real \<Rightarrow> nat \<Rightarrow> u8 list \<Rightarrow> u8 list" where
  "posterize_loop step satBoost i d =
     (if i < length d then
        (let r = byte d i; g = byte d (i + 1); b = byte d (i + 2); a = d ! (i + 3);
             c = rgbToHsl r g b;
             s2 = clamp01 (fl (hsl_s c + fl (satBoost * fl (1 - hsl_s c))));
             c2 = hslToRgb (hsl_h c) s2 (hsl_l c)
         in posterize_loop step satBoost (i + 4)
              (d[i := posterize_channel step (rgb_r c2),
                 i + 1 := posterize_channel step (rgb_g c2),
                 i + 2 := posterize_channel step (rgb_b c2),
                 i + 3 := a]))
      else d)"
  by pat_completeness auto
termination
  by (relation "measure (\<lambda>(step, satBoost, i, d). length d - i)") auto

declare posterize_loop.simps [simp del]

text \<open>
  \<open>imageData\<close> is a reference: the function writes through \<open>imageData.data\<close> and returns
  \<open>imageData\<close>. Its only caller passes both \<open>levels\<close> and \<open>satBoost\<close>.
\<close>

definition posterizeAndSaturate :: "store \<Rightarrow> ref \<Rightarrow> real \<Rightarrow> real \<Rightarrow> store \<times> ref" where
  "posterizeAndSaturate \<sigma> imageData levels satBoost =
     (let d = data (\<sigma> ! imageData);
          step = fl (255 / max 2 (fl (levels - 1)))
      in (\<sigma>[imageData := (\<sigma> ! imageData)\<lparr>data := posterize_loop step satBoost 0 d\<rparr>],
          imageData))"


subsection \<open>The posterizer as the specification words it\<close>

text \<open>
  The colour of pixel \<open>p\<close> after the saturation boost \<open>s' = s + B * (1 - s)\<close>, a channel of
  a colour by its number, the \<open>k\<close>-th of the \<open>M + 1\<close> evenly spaced levels that span
  \<open>[0, 255]\<close> in steps of \<open>255 / M\<close>, and what it is for level \<open>k\<close> to be nearest to a
  value.
\<close>

definition saturate_pixel :: "real \<Rightarrow> u8 list \<Rightarrow> nat \<Rightarrow> RGB" where
  "saturate_pixel B d p =
     (let c = rgbToHsl (byte d (4 * p)) (byte d (4 * p + 1)) (byte d (4 * p + 2))
      in hslToRgb (hsl_h c) (clamp01 (fl (hsl_s c + fl (B * fl (1 - hsl_s c))))) (hsl_l c))"

definition channel :: "RGB \<Rightarrow> nat \<Rightarrow> real" where
  "channel c ch = (if ch = 0 then rgb_r c else if ch = 1 then rgb_g c else rgb_b c)"

definition level :: "nat \<Rightarrow> nat \<Rightarrow> real" where
  "level M k = real k * (255 / real M)"

text \<open>
  The byte that the program stores for level \<open>k\<close>: \<open>k\<close> times the rounded step, rounded,
  and converted to a byte.
\<close>

definition stored_level :: "nat \<Rightarrow> nat \<Rightarrow> u8" where
  "stored_level M k = ToUint8Clamp (fl (real k * fl (255 / real M)))"

definition nearest_level :: "nat \<Rightarrow> real \<Rightarrow> nat \<Rightarrow> bool" where
  "nearest_level M v k = (k \<le> M \<and> (\<forall>j\<in>{..M}. \<bar>v - level M k\<bar> \<le> \<bar>v - level M j\<bar>))"

section \<open>Drawing on a canvas\<close>

text \<open>
  The 2D context belongs to the browser. What the program does to a canvas is the sequence
  of calls and property assignments it issues on the context, in order; a drawing function
  of the source is the list of commands it issues. \<open>DrawImage w h cmds\<close> draws another
  canvas of size \<open>w\<close> by \<open>h\<close>, given by the commands that painted it.
\<close>

datatype canvas_op =
    Save
  | Restore
  | ClearRect real real real real
  | FillRect real real real real
  | SetFillStyle string
  | SetStrokeStyle string
  | SetLineWidth real
  | SetGlobalAlpha real
  | SetGlobalCompositeOperation string
  | SetFilterBlur real
  | Translate real real
  | BeginPath
  | ClosePath
  | MoveTo real real
  | LineTo real real
  | BezierCurveTo real real real real real real
  | Arc real real real real real
  | Fill
  | Stroke
  | PutImageData ImageData real real
  | DrawImage nat nat "canvas_op list" real real

subsection \<open>Burst\<close>

text \<open>
  One pass of the loop over the rays. \<open>x1\<close> and \<open>y1\<close>, the point at radius 20 on the ray,
  are computed as in the source, which then calls \<open>moveTo(cx, cy)\<close>.
\<close>

definition burst_ray :: "real \<Rightarrow> real \<Rightarrow> real \<Rightarrow> real \<Rightarrow> int \<Rightarrow> nat \<Rightarrow> canvas_op list" where
  "burst_ray w h cx cy rays i =
     (let angle = (real i / of_int rays) * pi * 2;
          x1 = cx + cos angle * 20;
          y1 = cy + sin angle * 20;
          x2 = cx + cos angle * max w h;
          y2 = cy + sin angle * max w h
      in [BeginPath, MoveTo cx cy, LineTo x2 y2, SetLineWidth 3, SetStrokeStyle ''#000000'',
          Stroke])"

definition drawBurst :: "nat \<Rightarrow> nat \<Rightarrow> real \<Rightarrow> canvas_op list" where
  "drawBurst w h strength =
     (if strength \<le> 1 / 100 then []
      else (let cx = real w / 2;
                cy = real h / 2;
                rays = \<lfloor>64 * strength\<rfloor> + 16
            in [Save, SetGlobalAlpha (25 / 100 * strength)]
               @ concat (map (burst_ray (real w) (real h) cx cy rays) [0..<nat rays])
               @ [Restore]))"

text \<open>The points at which the sub-paths of a command sequence begin.\<close>

fun path_starts :: "canvas_op list \<Rightarrow> (real \<times> real) list" where
  "path_starts [] = []"
| "path_starts (MoveTo x y # ops) = (x, y) # path_starts ops"
| "path_starts (_ # ops) = path_starts ops"

subsection \<open>Halftone\<close>

definition halftone_spacing :: "real \<Rightarrow> int" where
  "halftone_spacing density = 12 - \<lfloor>density * 20\<rfloor>"

definition halftone_radius :: "int \<Rightarrow> int" where
  "halftone_radius spacing = max 1 \<lfloor>real_of_int spacing / 4\<rfloor>"

text \<open>
  The two \<open>for\<close> loops step by \<open>spacing\<close>, which the source does not bound from below:
  with a spacing of zero or less they never end, which is the value \<open>None\<close>.
\<close>

partial_function (option) halftone_cols ::
  "int \<Rightarrow> int \<Rightarrow> int \<Rightarrow> int \<Rightarrow> int \<Rightarrow> canvas_op list option" where
  "halftone_cols w spacing radius y x =
     (if x < w then
        Option.bind (halftone_cols w spacing radius y (x + spacing))
          (\<lambda>rest. Some ([BeginPath, Arc (of_int x) (of_int y) (of_int radius) 0 (pi * 2), Fill]
                          @ rest))
      else Some [])"

partial_function (option) halftone_rows ::
  "int \<Rightarrow> int \<Rightarrow> int \<Rightarrow> int \<Rightarrow> int \<Rightarrow> canvas_op list option" where
  "halftone_rows w h spacing radius y =
     (if y < h then
        Option.bind (halftone_cols w spacing radius y radius)
          (\<lambda>row. Option.bind (halftone_rows w h spacing radius (y + spacing))
             (\<lambda>rest. Some (row @ rest)))
      else Some [])"

text \<open>\<open>halftone\<close> is the component's toggle, which the function reads from its closure.\<close>

definition drawHalftone :: "bool \<Rightarrow> nat \<Rightarrow> nat \<Rightarrow> real \<Rightarrow> canvas_op list option" where
  "drawHalftone halftone w h density =
     (if \<not> halftone \<or> density \<le> 1 / 100 then Some []
      else (let spacing = halftone_spacing density;
                radius = halftone_radius spacing
            in Option.bind (halftone_rows (int w) (int h) spacing radius radius)
                 (\<lambda>dots. Some ([Save, SetGlobalAlpha (15 / 100 + density * (25 / 100)),
                                 SetFillStyle ''#000'']
                                @ dots @ [Restore]))))"

subsection \<open>Motifs\<close>

text \<open>
  \<open>Math.random()\<close> is the only source of randomness. Its results are an infinite sequence
  \<open>rnd\<close>; a function that may call it takes the number \<open>n\<close> of draws made so far and
  returns the number after it.
\<close>

function wave_points :: "real \<Rightarrow> real \<Rightarrow> real \<Rightarrow> real \<Rightarrow> real \<Rightarrow> canvas_op list" where
  "wave_points cx cy r tightness a =
     (if a < pi * (14 / 10) then
        (let t = a - pi * (2 / 10);
             rr = r * (1 - t / (pi * (12 / 10)));
             x = cx + cos a * rr;
             y = cy + sin a * rr * tightness
         in (if a = pi * (2 / 10) then MoveTo x y else LineTo x y)
            # wave_points cx cy r tightness (a + 5 / 100))
      else [])"
  by pat_completeness auto
termination
proof (relation "measure (\<lambda>(cx, cy, r, tightness, a). nat \<lceil>(pi * (14 / 10) - a) * 20\<rceil>)")
  show "wf (measure (\<lambda>(cx :: real, cy :: real, r :: real, tightness :: real, a).
    nat \<lceil>(pi * (14 / 10) - a) * 20\<rceil>))"
    by simp
next
  fix cx cy r tightness a t rr x y :: real
  assume "a < pi * (14 / 10)"
  then have pos: "0 < (pi * (14 / 10) - a) * 20" by simp
  have "(pi * (14 / 10) - (a + 5 / 100)) * 20 = (pi * (14 / 10) - a) * 20 - 1"
    by (simp add: algebra_simps)
  then have "\<lceil>(pi * (14 / 10) - (a + 5 / 100)) * 20\<rceil> = \<lceil>(pi * (14 / 10) - a) * 20\<rceil> - 1"
    by (simp only: ceiling_diff_one)
  moreover have "0 < \<lceil>(pi * (14 / 10) - a) * 20\<rceil>" using pos by simp
  ultimately show "((cx, cy, r, tightness, a + 5 / 100), cx, cy, r, tightness, a)
    \<in> measure (\<lambda>(cx, cy, r, tightness, a). nat \<lceil>(pi * (14 / 10) - a) * 20\<rceil>)"
    by simp
qed

declare wave_points.simps [simp del]

definition drawWave :: "real \<Rightarrow> real \<Rightarrow> real \<Rightarrow> real \<Rightarrow> canvas_op list" where
  "drawWave cx cy r tightness =
     [Save, SetStrokeStyle ''#000'', SetLineWidth 3, BeginPath]
     @ wave_points cx cy r tightness (pi * (2 / 10))
     @ [Stroke, Restore]"

definition drawFlame ::
  "(nat \<Rightarrow> real) \<Rightarrow> nat \<Rightarrow> real \<Rightarrow> real \<Rightarrow> real \<Rightarrow> canvas_op list \<times> nat" where
  "drawFlame rnd n x y hgt =
     (let wobble = (rnd n - 1 / 2) * 20
      in ([Save, BeginPath, MoveTo x y,
           BezierCurveTo (x - 10 + wobble) (y - hgt * (3 / 10)) (x - 6 + wobble)
             (y - hgt * (7 / 10)) x (y - hgt),
           BezierCurveTo (x + 6 + wobble) (y - hgt * (7 / 10)) (x + 10 + wobble)
             (y - hgt * (3 / 10)) x y,
           ClosePath, SetStrokeStyle ''#000'', SetLineWidth 2, Stroke, Restore],
          n + 1))"

definition spiral_point :: "real \<Rightarrow> real \<Rightarrow> real \<Rightarrow> nat \<Rightarrow> canvas_op" where
  "spiral_point cx cy r i =
     (let turns = 3; steps = 200;
          a = (real i / steps) * pi * 2 * turns;
          rr = (real i / steps) * r;
          x = cx + cos a * rr;
          y = cy + sin a * rr
      in if i = 0 then MoveTo x y else LineTo x y)"

definition drawSpiral :: "real \<Rightarrow> real \<Rightarrow> real \<Rightarrow> canvas_op list" where
  "drawSpiral cx cy r =
     [Save, BeginPath] @ map (spiral_point cx cy r) [0..<200]
     @ [SetStrokeStyle ''#000'', SetLineWidth 2, Stroke, Restore]"

definition wave_curl :: "real \<Rightarrow> real \<Rightarrow> int \<Rightarrow> nat \<Rightarrow> canvas_op list" where
  "wave_curl w h curls i =
     (let cx = (w / (of_int curls + 1)) * (real i + 1);
          cy = h * (65 / 100 + 25 / 100 * sin (real i))
      in drawWave cx cy (min w h * (35 / 100)) (8 / 10 + 2 / 10 * cos (real i)))"

definition flame_tongue ::
  "(nat \<Rightarrow> real) \<Rightarrow> real \<Rightarrow> real \<Rightarrow> int \<Rightarrow> nat \<Rightarrow> canvas_op list \<times> nat
     \<Rightarrow> canvas_op list \<times> nat" where
  "flame_tongue rnd w h tongues i acc =
     (let (ops, n) = acc;
          x = (real i / of_int tongues) * w;
          hgt = h * (2 / 10 + rnd n * (25 / 100));
          (flame, n') = drawFlame rnd (n + 1) x 0 hgt
      in (ops @ flame, n'))"

definition spiral_motif ::
  "(nat \<Rightarrow> real) \<Rightarrow> real \<Rightarrow> real \<Rightarrow> int \<Rightarrow> nat \<Rightarrow> canvas_op list \<times> nat
     \<Rightarrow> canvas_op list \<times> nat" where
  "spiral_motif rnd w h spirals i acc =
     (let (ops, n) = acc;
          cx = (if i mod 2 = 0 then w * (25 / 100) else w * (75 / 100))
               + (rnd n - 1 / 2) * w * (1 / 10);
          cy = (if real i < of_int spirals / 2 then h * (3 / 10) else h * (7 / 10))
               + (rnd (n + 1) - 1 / 2) * h * (1 / 10);
          r = min w h * (15 / 100 + rnd (n + 2) * (2 / 10))
      in (ops @ drawSpiral cx cy r, n + 3))"

definition drawMotifs ::
  "(nat \<Rightarrow> real) \<Rightarrow> nat \<Rightarrow> nat \<Rightarrow> nat \<Rightarrow> string \<Rightarrow> real \<Rightarrow> canvas_op list \<times> nat" where
  "drawMotifs rnd n w h pack intensity =
     (if pack = ''none'' then ([], n)
      else (let pre = [Save, SetGlobalAlpha (4 / 10 * intensity),
                       SetGlobalCompositeOperation ''multiply''];
                (body, n') =
                  (if pack = ''waves'' then
                     (let curls = \<lfloor>3 + intensity * 5\<rfloor>
                      in (concat (map (wave_curl (real w) (real h) curls) [0..<nat curls]), n))
                   else if pack = ''flames'' then
                     (let tongues = \<lfloor>25 + intensity * 40\<rfloor>
                      in fold (flame_tongue rnd (real w) (real h) tongues) [0..<nat tongues]
                           ([Translate 0 (real h * (85 / 100))], n))
                   else if pack = ''psychedelia'' then
                     (let spirals = \<lfloor>4 + intensity * 6\<rfloor>
                      in fold (spiral_motif rnd (real w) (real h) spirals) [0..<nat spirals]
                           ([], n))
                   else ([], n))
            in (pre @ body @ [Restore], n')))"


section \<open>Edge detector\<close>

definition idx :: "nat \<Rightarrow> int \<Rightarrow> int \<Rightarrow> nat" where
  "idx w x y = nat ((y * int w + x) * 4)"

definition gx_kernel :: "real list" where
  "gx_kernel = [-1, 0, 1, -2, 0, 2, -1, 0, 1]"

definition gy_kernel :: "real list" where
  "gy_kernel = [-1, -2, -1, 0, 0, 0, 1, 2, 1]"

text \<open>
  One step of the two inner loops: the luminance of the neighbour \<open>(x + i, y + j)\<close> and
  the two running sums, each operation rounded.
\<close>

definition sobel_tap ::
  "u8 list \<Rightarrow> nat \<Rightarrow> nat \<Rightarrow> nat \<Rightarrow> real \<times> real \<times> nat \<Rightarrow> int \<times> int \<Rightarrow> real \<times> real \<times> nat" where
  "sobel_tap d w x y acc ji =
     (let (sx, sy, k) = acc;
          (j, i) = ji;
          p = idx w (int x + i) (int y + j);
          lum = fl (fl (fl (fl (2126 / 10000) * byte d p)
                        + fl (fl (7152 / 10000) * byte d (p + 1)))
                    + fl (fl (722 / 10000) * byte d (p + 2)))
      in (fl (sx + fl (lum * gx_kernel ! k)), fl (sy + fl (lum * gy_kernel ! k)), k + 1))"

definition sobel_sums :: "u8 list \<Rightarrow> nat \<Rightarrow> nat \<Rightarrow> nat \<Rightarrow> real \<times> real \<times> nat" where
  "sobel_sums d w x y =
     foldl (sobel_tap d w x y) (0, 0, 0)
       (concat (map (\<lambda>j. map (\<lambda>i. (j, i)) [-1, 0, 1]) [-1, 0, 1]))"

definition sobel_pixel :: "u8 list \<Rightarrow> nat \<Rightarrow> real \<Rightarrow> nat \<Rightarrow> u8 list \<Rightarrow> nat \<Rightarrow> u8 list" where
  "sobel_pixel d w threshold y out x =
     (let (sx, sy, k) = sobel_sums d w x y;
          mag = fl (sqrt (fl (fl (sx * sx) + fl (sy * sy))));
          isEdge = (mag > threshold);
          q = idx w (int x) (int y)
      in out[q := 0, q + 1 := 0, q + 2 := 0, q + 3 := (if isEdge then 255 else 0)])"

definition sobel_row :: "u8 list \<Rightarrow> nat \<Rightarrow> real \<Rightarrow> u8 list \<Rightarrow> nat \<Rightarrow> u8 list" where
  "sobel_row d w threshold out y = foldl (sobel_pixel d w threshold y) out [1..<w - 1]"

text \<open>\<open>canvas\<close> is the content of the canvas behind \<open>srcCtx\<close>.\<close>

definition sobelEdges :: "ImageData \<Rightarrow> nat \<Rightarrow> nat \<Rightarrow> real \<Rightarrow> error + ImageData" where
  "sobelEdges canvas w h threshold =
     (case getImageData canvas w h of
        Inl e \<Rightarrow> Inl e
      | Inr src \<Rightarrow>
          (case createImageData w h of
             Inl e \<Rightarrow> Inl e
           | Inr out \<Rightarrow>
               Inr (out\<lparr>data := foldl (sobel_row (data src) w threshold) (data out)
                                  [1..<h - 1]\<rparr>)))"

subsection \<open>The detector as the specification words it\<close>

text \<open>
  The luminance field of a buffer, the two 3 by 3 kernels written out
  (horizontal \<open>[-1,0,1; -2,0,2; -1,0,1]\<close>, vertical \<open>[-1,-2,-1; 0,0,0; 1,2,1]\<close>) and the
  gradient magnitude.
\<close>

definition luminance :: "u8 list \<Rightarrow> nat \<Rightarrow> nat \<Rightarrow> nat \<Rightarrow> real" where
  "luminance d w x y =
     2126 / 10000 * byte d ((y * w + x) * 4) + 7152 / 10000 * byte d ((y * w + x) * 4 + 1)
     + 722 / 10000 * byte d ((y * w + x) * 4 + 2)"

definition gradient_x :: "u8 list \<Rightarrow> nat \<Rightarrow> nat \<Rightarrow> nat \<Rightarrow> real" where
  "gradient_x d w x y =
     (luminance d w (x + 1) (y - 1) + 2 * luminance d w (x + 1) y
        + luminance d w (x + 1) (y + 1))
     - (luminance d w (x - 1) (y - 1) + 2 * luminance d w (x - 1) y
        + luminance d w (x - 1) (y + 1))"

definition gradient_y :: "u8 list \<Rightarrow> nat \<Rightarrow> nat \<Rightarrow> nat \<Rightarrow> real" where
  "gradient_y d w x y =
     (luminance d w (x - 1) (y + 1) + 2 * luminance d w x (y + 1)
        + luminance d w (x + 1) (y + 1))
     - (luminance d w (x - 1) (y - 1) + 2 * luminance d w x (y - 1)
        + luminance d w (x + 1) (y - 1))"

definition gradient_magnitude :: "u8 list \<Rightarrow> nat \<Rightarrow> nat \<Rightarrow> nat \<Rightarrow> real" where
  "gradient_magnitude d w x y = sqrt ((gradient_x d w x y)\<^sup>2 + (gradient_y d w x y)\<^sup>2)"

definition interior :: "nat \<Rightarrow> nat \<Rightarrow> nat \<Rightarrow> nat \<Rightarrow> bool" where
  "interior w h x y = (1 \<le> x \<and> x + 1 < w \<and> 1 \<le> y \<and> y + 1 < h)"

text \<open>The alpha of a pixel of the mask: 255 for an edge, where the magnitude exceeds \<open>T\<close>.\<close>

definition edge_alpha :: "u8 list \<Rightarrow> nat \<Rightarrow> real \<Rightarrow> nat \<Rightarrow> nat \<Rightarrow> u8" where
  "edge_alpha d w T x y = (if gradient_magnitude d w x y > T then 255 else 0)"

subsection \<open>The same quantities in binary64\<close>

text \<open>
  The luminance with its three products and two sums rounded; the kernel sums taken over
  the nine neighbours row by row, each product and each addition rounded; the magnitude
  with its two squares, their sum and the square root rounded.
\<close>

definition luminance_fl :: "u8 list \<Rightarrow> nat \<Rightarrow> nat \<Rightarrow> nat \<Rightarrow> real" where
  "luminance_fl d w x y =
     fl (fl (fl (fl (2126 / 10000) * byte d ((y * w + x) * 4))
             + fl (fl (7152 / 10000) * byte d ((y * w + x) * 4 + 1)))
         + fl (fl (722 / 10000) * byte d ((y * w + x) * 4 + 2)))"

definition tap_fl :: "real \<Rightarrow> real \<times> real \<Rightarrow> real" where
  "tap_fl s lc = fl (s + fl (fst lc * snd lc))"

definition gradient_x_fl :: "u8 list \<Rightarrow> nat \<Rightarrow> nat \<Rightarrow> nat \<Rightarrow> real" where
  "gradient_x_fl d w x y =
     foldl tap_fl 0
       [(luminance_fl d w (x - 1) (y - 1), - 1), (luminance_fl d w x (y - 1), 0),
        (luminance_fl d w (x + 1) (y - 1), 1),
        (luminance_fl d w (x - 1) y, - 2), (luminance_fl d w x y, 0),
        (luminance_fl d w (x + 1) y, 2),
        (luminance_fl d w (x - 1) (y + 1), - 1), (luminance_fl d w x (y + 1), 0),
        (luminance_fl d w (x + 1) (y + 1), 1)]"

definition gradient_y_fl :: "u8 list \<Rightarrow> nat \<Rightarrow> nat \<Rightarrow> nat \<Rightarrow> real" where
  "gradient_y_fl d w x y =
     foldl tap_fl 0
       [(luminance_fl d w (x - 1) (y - 1), - 1), (luminance_fl d w x (y - 1), - 2),
        (luminance_fl d w (x + 1) (y - 1), - 1),
        (luminance_fl d w (x - 1) y, 0), (luminance_fl d w x y, 0),
        (luminance_fl d w (x + 1) y, 0),
        (luminance_fl d w (x - 1) (y + 1), 1), (luminance_fl d w x (y + 1), 2),
        (luminance_fl d w (x + 1) (y + 1), 1)]"

definition magnitude_fl :: "u8 list \<Rightarrow> nat \<Rightarrow> nat \<Rightarrow> nat \<Rightarrow> real" where
  "magnitude_fl d w x y =
     fl (sqrt (fl (fl (gradient_x_fl d w x y * gradient_x_fl d w x y)
                   + fl (gradient_y_fl d w x y * gradient_y_fl d w x y))))"

definition edge_alpha_fl :: "u8 list \<Rightarrow> nat \<Rightarrow> real \<Rightarrow> nat \<Rightarrow> nat \<Rightarrow> u8" where
  "edge_alpha_fl d w T x y = (if magnitude_fl d w x y > T then 255 else 0)"

section \<open>Composite pipeline\<close>

text \<open>The controls are the component's state, which \<open>stylize\<close> reads from its closure.\<close>

record controls =
  styleIntensity :: real
  outlineWeight :: real
  saturationBoost :: real
  motifPack :: string
  halftone :: bool
  halftoneDensity :: real
  burstStrength :: real
  transparentBG :: bool

text \<open>
  \<open>mounted\<close> says that an image is loaded and both canvases exist (otherwise \<open>stylize\<close>
  returns at once); \<open>ocan\<close> is the content of the original canvas. The result is the
  command sequence issued on the stylized canvas and the number of random draws made;
  \<open>Inl\<close> is an exception thrown by the browser (with a zero width or height, when the
  canvas has no pixel), \<open>None\<close> a halftone loop that never ends.
\<close>

definition stylize ::
  "controls \<Rightarrow> bool \<Rightarrow> ImageData \<Rightarrow> (nat \<Rightarrow> real) \<Rightarrow> nat
     \<Rightarrow> (error + canvas_op list \<times> nat) option" where
  "stylize c mounted ocan rnd n =
     (if \<not> mounted then Some (Inr ([], n))
      else
       (let w = width ocan;
            h = height ocan;
            clear = [ClearRect 0 0 (real w) (real h)];
            backdrop = (if \<not> transparentBG c
                        then [SetFillStyle ''#f6f6f6'', FillRect 0 0 (real w) (real h)]
                        else []);
            burst = [Save, SetGlobalCompositeOperation ''multiply'']
                    @ drawBurst w h (burstStrength c * styleIntensity c) @ [Restore]
        in case getImageData ocan w h of
             Inl e \<Rightarrow> Some (Inl e)
           | Inr base \<Rightarrow>
              (let levels = Math_floor (5 + styleIntensity c * 5);
                   satBoost = saturationBoost c * (3 / 10 + styleIntensity c * (7 / 10))
               in case copyImageData [base] 0 of
                    Inl e \<Rightarrow> Some (Inl e)
                  | Inr (\<sigma>1, copy) \<Rightarrow>
                     (let (\<sigma>2, poster) = posterizeAndSaturate \<sigma>1 copy levels satBoost;
                          base_layer = [PutImageData (\<sigma>2 ! poster) 0 0];
                          (motifs, n') = drawMotifs rnd n w h (motifPack c) (styleIntensity c);
                          edgeThreshold = 100 - outlineWeight c * 80
                      in case sobelEdges ocan w h edgeThreshold of
                           Inl e \<Rightarrow> Some (Inl e)
                         | Inr edges \<Rightarrow>
                            (let thickenPx = Math_floor (1 + outlineWeight c * 3);
                                 tmp0 = [PutImageData edges 0 0, SetFilterBlur thickenPx,
                                         SetGlobalCompositeOperation ''source-over''];
                                 tmp = tmp0 @ [DrawImage w h tmp0 0 0];
                                 edge_layer = [Save, SetGlobalAlpha (9 / 10),
                                               DrawImage w h tmp 0 0, Restore]
                             in Option.bind
                                  (drawHalftone (halftone c) w h
                                     (if halftone c then halftoneDensity c else 0))
                                  (\<lambda>dots. Some (Inr (clear @ backdrop @ burst @ base_layer
                                                      @ motifs @ edge_layer @ dots, n'))))))))"

text \<open>
  The pixels of a canvas after a command sequence, for a rasteriser \<open>paint\<close> (the
  browser's, which is deterministic) and the canvas \<open>blank\<close> it started from.
\<close>

definition rendered :: "('buf \<Rightarrow> canvas_op \<Rightarrow> 'buf) \<Rightarrow> 'buf \<Rightarrow> canvas_op list \<Rightarrow> 'buf" where
  "rendered paint blank ops = foldl paint blank ops"

section \<open>Palette transfer\<close>

text \<open>\<open>bd\<close> starts as \<open>Infinity\<close>, which is \<open>None\<close> here.\<close>

definition closest_step :: "RGB \<Rightarrow> RGB list \<Rightarrow> nat \<times> real option \<Rightarrow> nat \<Rightarrow> nat \<times> real option" where
  "closest_step c palette acc i =
     (let (bi, bd) = acc;
          p = palette ! i;
          d = (rgb_r c - rgb_r p)\<^sup>2 + (rgb_g c - rgb_g p)\<^sup>2 + (rgb_b c - rgb_b p)\<^sup>2
      in if (case bd of None \<Rightarrow> True | Some m \<Rightarrow> d < m) then (i, Some d) else (bi, bd))"

definition closestColorIndex :: "RGB \<Rightarrow> RGB list \<Rightarrow> nat" where
  "closestColorIndex c palette = fst (foldl (closest_step c palette) (0, None) [0..<length palette])"

function palette_loop :: "RGB list \<Rightarrow> nat \<Rightarrow> u8 list \<Rightarrow> u8 list" where
  "palette_loop palette i d =
     (if i < length d then
        (let r = byte d i; g = byte d (i + 1); b = byte d (i + 2);
             k = closestColorIndex \<lparr>rgb_r = r, rgb_g = g, rgb_b = b\<rparr> palette;
             p = palette ! k
         in palette_loop palette (i + 4)
              (d[i := ToUint8Clamp (rgb_r p), i + 1 := ToUint8Clamp (rgb_g p),
                 i + 2 := ToUint8Clamp (rgb_b p)]))
      else d)"
  by pat_completeness auto
termination
  by (relation "measure (\<lambda>(palette, i, d). length d - i)") auto

declare palette_loop.simps [simp del]

text \<open>A palette that is \<open>null\<close> or \<open>undefined\<close> is \<open>None\<close>.\<close>

definition applyPaletteToImageData :: "store \<Rightarrow> ref \<Rightarrow> RGB list option \<Rightarrow> store \<times> ref" where
  "applyPaletteToImageData \<sigma> imageData palette =
     (case palette of
        None \<Rightarrow> (\<sigma>, imageData)
      | Some pal \<Rightarrow>
          if length pal = 0 then (\<sigma>, imageData)
          else (\<sigma>[imageData := (\<sigma> ! imageData)\<lparr>data := palette_loop pal 0 (data (\<sigma> ! imageData))\<rparr>],
                imageData))"

section \<open>Parameter advisor\<close>

record profile_stats =
  palette :: "RGB list"
  meanSaturation :: real
  saturationStd :: real
  edgeDensity :: real
  contrastIndex :: real

record suggested =
  sg_outlineWeight :: real
  sg_saturationBoost :: real
  sg_halftoneDensity :: real
  sg_burstStrength :: real
  sg_motifPack :: string
  sg_styleIntensity :: real
  sg_applyPalette :: bool

definition hue_step :: "real \<times> real \<Rightarrow> RGB \<Rightarrow> real \<times> real" where
  "hue_step acc c =
     (let (warm, cool) = acc;
          k = rgbToHsl (rgb_r c) (rgb_g c) (rgb_b c)
      in if hsl_s k < 15 / 100 then (warm, cool)
         else if hsl_h k < 1 / 6 \<or> hsl_h k > 5 / 6 then (warm + 1, cool)
         else if hsl_h k > 1 / 3 \<and> hsl_h k < 2 / 3 then (warm, cool + 1)
         else (warm, cool))"

definition estimateHueBias :: "RGB list \<Rightarrow> string" where
  "estimateHueBias pal =
     (let (warm, cool) = foldl hue_step (0, 0) pal
      in if warm > cool * (12 / 10) then ''warm''
         else if cool > warm * (12 / 10) then ''cool''
         else ''mixed'')"

definition suggestControls :: "profile_stats \<Rightarrow> suggested" where
  "suggestControls ctx =
     (let meanSat = meanSaturation ctx; edge = edgeDensity ctx; contrast = contrastIndex ctx;
          outline = clamp01 (4 / 10 + edge * 2);
          satBoost = clamp01 (2 / 10 + (6 / 10 - meanSat) * (6 / 10));
          halftoneD = clamp01 (5 / 100 + contrast * (6 / 10));
          burst = clamp01 (3 / 10 + contrast * (5 / 10));
          hueBias = estimateHueBias (palette ctx);
          motif = (if hueBias = ''cool'' then ''waves''
                   else if hueBias = ''warm'' then ''flames'' else ''psychedelia'');
          intensity = clamp01 (6 / 10 + contrast * (3 / 10))
      in \<lparr>sg_outlineWeight = outline, sg_saturationBoost = satBoost,
          sg_halftoneDensity = halftoneD, sg_burstStrength = burst, sg_motifPack = motif,
          sg_styleIntensity = intensity, sg_applyPalette = True\<rparr>)"


section \<open>Profile import\<close>

text \<open>
  A value produced by \<open>JSON.parse\<close>. The type annotations of the source are erased when
  it runs: the state holds whatever value was parsed. A value that may be \<open>undefined\<close> is
  an option.
\<close>

datatype json =
    JNull
  | JBool bool
  | JNum real
  | JStr string
  | JArr "json list"
  | JObj "(string \<times> json) list"

type_synonym jsval = "json option"


text \<open>
  The part of the component's state that an import touches: the held profile (\<open>null\<close>
  at first), the controls that \<open>applySuggested\<close> sets, the auto-apply toggle and the
  browser's local storage (the stored text is given by the value it serialises).
\<close>

record ui_state =
  profile :: json
  ui_outlineWeight :: jsval
  ui_saturationBoost :: jsval
  ui_halftoneDensity :: jsval
  ui_burstStrength :: jsval
  ui_motifPack :: jsval
  ui_styleIntensity :: jsval
  applyPaletteTransfer :: jsval
  autoApplyProfile :: bool
  localStorage :: "string \<rightharpoonup> json"



text \<open>
  A run of statements that may throw: the state reached, and the exception if one was
  thrown. The setters called before the exception have taken effect.
\<close>

type_synonym run = "ui_state \<times> error option"






section \<open>Rounding to binary64\<close>

lemma round_even_close: "\<bar>of_int (round_even x) - x\<bar> \<le> 1 / 2"
  unfolding round_even_def Let_def by (auto simp: abs_if) linarith+

lemma round_even_of_int [simp]: "round_even (of_int n) = n"
  by (simp add: round_even_def)

lemma round_even_zero [simp]: "round_even 0 = 0"
  using round_even_of_int[of 0] by simp

lemma ulp_pos: "0 < ulp x"
  by (simp add: ulp_def)

lemma fl_zero [simp]: "fl 0 = 0"
  by (simp add: fl_def)

lemma fl_error_ulp: "\<bar>fl x - x\<bar> \<le> ulp x / 2"
proof (cases "x = 0")
  case True
  then show ?thesis using ulp_pos[of x] by (simp add: fl_def)
next
  case False
  have "fl x - x = (of_int (round_even (x / ulp x)) - x / ulp x) * ulp x"
    using ulp_pos[of x] False by (simp add: fl_def field_simps)
  then have "\<bar>fl x - x\<bar> = \<bar>of_int (round_even (x / ulp x)) - x / ulp x\<bar> * ulp x"
    using ulp_pos[of x] by (simp add: abs_mult)
  also have "\<dots> \<le> 1 / 2 * ulp x"
    using round_even_close[of "x / ulp x"] ulp_pos[of x] by (intro mult_right_mono) auto
  finally show ?thesis by simp
qed

lemma expo_eqI:
  assumes "2 powr of_int e \<le> \<bar>x\<bar>" "\<bar>x\<bar> < 2 powr (of_int e + 1)" "- 1022 \<le> e"
  shows "expo x = e"
proof -
  have "0 < \<bar>x\<bar>" using assms(1) by (smt (verit) powr_gt_zero)
  then have "\<lfloor>log 2 \<bar>x\<bar>\<rfloor> = e"
    using assms(1,2) by (subst floor_log_eq_powr_iff) auto
  then show ?thesis using assms(3) by (simp add: expo_def)
qed

lemma expo_le:
  assumes "\<bar>x\<bar> < 2 powr (of_int e + 1)" "- 1022 \<le> e" "x \<noteq> 0"
  shows "expo x \<le> e"
proof -
  have "log 2 \<bar>x\<bar> < of_int e + 1"
    using assms(1,3) by (subst log_less_iff) auto
  then have "\<lfloor>log 2 \<bar>x\<bar>\<rfloor> < e + 1" by linarith
  then show ?thesis using assms(2) by (simp add: expo_def)
qed

lemma ulp_scaled:
  assumes "2 ^ 52 \<le> \<bar>x\<bar> * 2 ^ k" "\<bar>x\<bar> * 2 ^ k < 2 ^ 53" "k \<le> 1074"
  shows "ulp x = 1 / 2 ^ k"
proof -
  have p: "2 powr (of_int (52 - int k)) = (2::real) ^ 52 / 2 ^ k"
    by (simp add: powr_diff powr_realpow flip: powr_realpow[of 2 52])
  have p1: "2 powr (of_int (52 - int k) + 1) = (2::real) ^ 53 / 2 ^ k"
    by (simp add: powr_diff powr_add powr_realpow)
  have "expo x = 52 - int k"
  proof (rule expo_eqI)
    show "2 powr of_int (52 - int k) \<le> \<bar>x\<bar>"
      unfolding p using assms(1) by (simp add: field_simps)
    show "\<bar>x\<bar> < 2 powr (of_int (52 - int k) + 1)"
      unfolding p1 using assms(2) by (simp add: field_simps)
    show "- 1022 \<le> 52 - int k" using assms(3) by simp
  qed
  then have "ulp x = 2 powr (- real k)" by (simp add: ulp_def)
  then show ?thesis by (simp add: powr_minus powr_realpow inverse_eq_divide)
qed

lemma fl_scaled:
  assumes "2 ^ 52 \<le> \<bar>x\<bar> * 2 ^ k" "\<bar>x\<bar> * 2 ^ k < 2 ^ 53" "k \<le> 1074"
  shows "fl x = of_int (round_even (x * 2 ^ k)) / 2 ^ k"
proof -
  have "x \<noteq> 0" using assms(1) by auto
  then show ?thesis by (simp add: fl_def ulp_scaled[OF assms])
qed

lemma fl_eqI:
  assumes "2 ^ 52 \<le> \<bar>x\<bar> * 2 ^ k" "\<bar>x\<bar> * 2 ^ k < 2 ^ 53" "k \<le> 1074"
    "round_even (x * 2 ^ k) = m"
  shows "fl x = of_int m / 2 ^ k"
  using fl_scaled[OF assms(1-3)] assms(4) by simp

lemma ulp_le:
  assumes "\<bar>x\<bar> \<le> 2 ^ n" "x \<noteq> 0"
  shows "ulp x \<le> 2 ^ n / 2 ^ 52"
proof -
  have "\<bar>x\<bar> < 2 powr (of_int (int n) + 1)"
    using assms by (simp add: powr_add powr_realpow)
  then have "expo x \<le> int n" using assms(2) by (intro expo_le) auto
  then have "ulp x \<le> 2 powr (of_int (int n) - 52)"
    unfolding ulp_def by (intro powr_mono) auto
  then show ?thesis by (simp add: powr_diff powr_realpow)
qed

lemma fl_error:
  assumes "\<bar>x\<bar> \<le> 2 ^ n"
  shows "\<bar>fl x - x\<bar> \<le> 2 ^ n / 2 ^ 53"
proof (cases "x = 0")
  case True
  then show ?thesis by simp
next
  case False
  from fl_error_ulp[of x] ulp_le[OF assms False] show ?thesis by simp
qed

lemma fl_num:
  assumes "2 ^ 52 \<le> \<bar>x\<bar> * 2 ^ k" "\<bar>x\<bar> * 2 ^ k < 2 ^ 53" "k \<le> 1074"
    "of_int (round_even (x * 2 ^ k)) / 2 ^ k = v"
  shows "fl x = v"
  using fl_scaled[OF assms(1-3)] assms(4) by simp

lemma fl_minus: "fl (- x) = - fl x"
proof -
  have r: "round_even (- y) = - round_even y" for y
  proof -
    show ?thesis
    proof (cases "y \<in> \<int>")
      case True
      then obtain n where "y = of_int n" by (auto elim: Ints_cases)
      then have "round_even (- y) = round_even (of_int (- n))" by simp
      then show ?thesis using \<open>y = of_int n\<close> by (simp del: of_int_minus)
    next
      case False
      then have "y \<noteq> of_int \<lfloor>y\<rfloor>" by (metis Ints_of_int)
      then have f: "\<lfloor>- y\<rfloor> = - \<lfloor>y\<rfloor> - 1" by (simp add: floor_minus ceiling_altdef)
      show ?thesis
        unfolding round_even_def Let_def f
        by (auto simp: algebra_simps)
    qed
  qed
  have u: "ulp (- x) = ulp x" by (simp add: ulp_def expo_def)
  show ?thesis by (simp add: fl_def u r)
qed

lemma fl_close:
  assumes "2 ^ 52 \<le> \<bar>x\<bar> * 2 ^ k" "\<bar>x\<bar> * 2 ^ k < 2 ^ 53" "k \<le> 1074"
  shows "\<bar>fl x - x\<bar> \<le> 1 / 2 ^ (k + 1)"
  using fl_error_ulp[of x] ulp_scaled[OF assms] by simp

lemma fl_ge:
  assumes "2 ^ 52 \<le> \<bar>x\<bar> * 2 ^ k" "\<bar>x\<bar> * 2 ^ k < 2 ^ 53" "k \<le> 1074"
  shows "x - 1 / 2 ^ (k + 1) \<le> fl x"
  using fl_close[OF assms] by linarith

lemma fl_le:
  assumes "2 ^ 52 \<le> \<bar>x\<bar> * 2 ^ k" "\<bar>x\<bar> * 2 ^ k < 2 ^ 53" "k \<le> 1074"
  shows "fl x \<le> x + 1 / 2 ^ (k + 1)"
  using fl_close[OF assms] by linarith

lemma fl_lower:
  assumes "\<bar>x\<bar> \<le> 2 ^ n"
  shows "x - 2 ^ n / 2 ^ 53 \<le> fl x"
  using fl_error[OF assms] by linarith

lemma fl_upper:
  assumes "\<bar>x\<bar> \<le> 2 ^ n"
  shows "fl x \<le> x + 2 ^ n / 2 ^ 53"
  using fl_error[OF assms] by linarith

lemma round_even_cases: "round_even x = \<lfloor>x\<rfloor> \<or> round_even x = \<lfloor>x\<rfloor> + 1"
  by (auto simp: round_even_def Let_def)

lemma round_even_mono:
  assumes "x \<le> y"
  shows "round_even x \<le> round_even y"
proof (cases "\<lfloor>x\<rfloor> = \<lfloor>y\<rfloor>")
  case True
  then show ?thesis using assms by (auto simp: round_even_def Let_def)
next
  case False
  then have "\<lfloor>x\<rfloor> + 1 \<le> \<lfloor>y\<rfloor>" using floor_mono[OF assms] by linarith
  moreover have "round_even x \<le> \<lfloor>x\<rfloor> + 1" using round_even_cases[of x] by linarith
  moreover have "\<lfloor>y\<rfloor> \<le> round_even y" using round_even_cases[of y] by linarith
  ultimately show ?thesis by linarith
qed

lemma fl_nonneg:
  assumes "0 \<le> x"
  shows "0 \<le> fl x"
proof -
  have "0 \<le> x / ulp x" using assms ulp_pos[of x] by simp
  from round_even_mono[OF this] have "0 \<le> round_even (x / ulp x)" by simp
  then show ?thesis using ulp_pos[of x] by (simp add: fl_def)
qed

lemma fl_nonpos:
  assumes "x \<le> 0"
  shows "fl x \<le> 0"
  using fl_nonneg[of "- x"] assms by (simp add: fl_minus)

lemma expo_mono:
  assumes "0 < x" "x \<le> y"
  shows "expo x \<le> expo y"
proof -
  have "log 2 \<bar>x\<bar> \<le> log 2 \<bar>y\<bar>" using assms by simp
  then have "\<lfloor>log 2 \<bar>x\<bar>\<rfloor> \<le> \<lfloor>log 2 \<bar>y\<bar>\<rfloor>" by (rule floor_mono)
  then show ?thesis by (simp add: expo_def)
qed

lemma below_next_binade:
  assumes "0 < x"
  shows "x < 2 powr (of_int (expo x) + 1)"
proof -
  have "log 2 x < of_int \<lfloor>log 2 x\<rfloor> + 1" by linarith
  also have "\<dots> \<le> of_int (expo x) + 1" using assms by (simp add: expo_def)
  finally have "log 2 x < of_int (expo x) + 1" .
  then have "2 powr log 2 x < 2 powr (of_int (expo x) + 1)" by simp
  then show ?thesis using assms by simp
qed

lemma above_binade:
  assumes "0 < x" "- 1022 < expo x"
  shows "2 powr of_int (expo x) \<le> x"
proof -
  have "expo x = \<lfloor>log 2 x\<rfloor>" using assms by (simp add: expo_def max_def split: if_splits)
  then have "of_int (expo x) \<le> log 2 x" by simp
  then have "2 powr of_int (expo x) \<le> 2 powr log 2 x" by simp
  then show ?thesis using assms by simp
qed

lemma fl_le_next_binade:
  assumes "0 < x"
  shows "fl x \<le> 2 powr (of_int (expo x) + 1)"
proof -
  have "x / ulp x \<le> 2 powr (of_int (expo x) + 1) / ulp x"
    using below_next_binade[OF assms] ulp_pos[of x] by (simp add: divide_right_mono)
  also have "\<dots> = 2 powr 53" by (simp add: ulp_def flip: powr_diff)
  also have "\<dots> = of_int (2 ^ 53)" by (simp add: powr_realpow flip: powr_realpow[of 2 53])
  finally have "round_even (x / ulp x) \<le> round_even (of_int (2 ^ 53))"
    by (rule round_even_mono)
  then have "of_int (round_even (x / ulp x)) \<le> (2 ^ 53 :: real)"
    unfolding round_even_of_int by (metis of_int_le_iff of_int_numeral of_int_power)
  then have "of_int (round_even (x / ulp x)) * ulp x \<le> 2 ^ 53 * ulp x"
    using ulp_pos[of x] by (simp add: mult_right_mono)
  also have "\<dots> = 2 powr 53 * ulp x" by simp
  also have "\<dots> = 2 powr (53 + (of_int (expo x) - 52))"
    unfolding ulp_def by (simp only: powr_add)
  also have "53 + (real_of_int (expo x) - 52) = of_int (expo x) + 1" by simp
  finally show ?thesis using assms by (simp add: fl_def)
qed

lemma fl_ge_binade:
  assumes "0 < x" "- 1022 < expo x"
  shows "2 powr of_int (expo x) \<le> fl x"
proof -
  have "2 powr of_int (expo x) / ulp x \<le> x / ulp x"
    using above_binade[OF assms] ulp_pos[of x] by (simp add: divide_right_mono)
  moreover have "2 powr of_int (expo x) / ulp x = 2 powr 52" by (simp add: ulp_def flip: powr_diff)
  moreover have "2 powr 52 = real_of_int (2 ^ 52)"
    by (simp add: powr_realpow flip: powr_realpow[of 2 52])
  ultimately have "real_of_int (2 ^ 52) \<le> x / ulp x" by simp
  then have "round_even (of_int (2 ^ 52)) \<le> round_even (x / ulp x)"
    by (rule round_even_mono)
  then have "(2 ^ 52 :: real) \<le> of_int (round_even (x / ulp x))"
    unfolding round_even_of_int by (metis of_int_le_iff of_int_numeral of_int_power)
  then have "2 ^ 52 * ulp x \<le> of_int (round_even (x / ulp x)) * ulp x"
    using ulp_pos[of x] by (simp add: mult_right_mono)
  moreover have "2 ^ 52 * ulp x = 2 powr 52 * ulp x" by simp
  moreover have "2 powr 52 * ulp x = 2 powr (52 + (of_int (expo x) - 52))"
    unfolding ulp_def by (simp only: powr_add)
  moreover have "52 + (real_of_int (expo x) - 52) = of_int (expo x)" by simp
  ultimately show ?thesis using assms by (simp add: fl_def)
qed

lemma fl_mono_pos:
  assumes "0 < x" "x \<le> y"
  shows "fl x \<le> fl y"
proof (cases "expo x = expo y")
  case True
  then have u: "ulp x = ulp y" by (simp add: ulp_def)
  have "x / ulp y \<le> y / ulp y" using assms ulp_pos[of y] by (simp add: divide_right_mono)
  from round_even_mono[OF this]
  have "of_int (round_even (x / ulp y)) * ulp y \<le> of_int (round_even (y / ulp y)) * ulp y"
    using ulp_pos[of y] by (simp add: mult_right_mono)
  then show ?thesis using assms by (simp add: fl_def u)
next
  case False
  then have lt: "expo x < expo y" using expo_mono[OF assms] by simp
  have y: "0 < y" using assms by simp
  have "- 1022 \<le> expo x" by (simp add: expo_def)
  then have "- 1022 < expo y" using lt by simp
  from fl_ge_binade[OF y this] have "2 powr of_int (expo y) \<le> fl y" .
  moreover have "fl x \<le> 2 powr (of_int (expo x) + 1)" by (rule fl_le_next_binade[OF assms(1)])
  moreover have "2 powr (of_int (expo x) + 1) \<le> (2::real) powr of_int (expo y)"
  proof (rule powr_mono)
    have "expo x + 1 \<le> expo y" using lt by simp
    then show "real_of_int (expo x) + 1 \<le> real_of_int (expo y)" by linarith
  qed simp
  ultimately show ?thesis by linarith
qed

lemma fl_mono:
  assumes "x \<le> y"
  shows "fl x \<le> fl y"
proof -
  consider "0 < x" | "x \<le> 0" "0 \<le> y" | "y < 0" using assms by linarith
  then show ?thesis
  proof cases
    case 1
    then show ?thesis using assms by (rule fl_mono_pos)
  next
    case 2
    then show ?thesis using fl_nonpos[of x] fl_nonneg[of y] by linarith
  next
    case 3
    then have "0 < - y" "- y \<le> - x" using assms by simp_all
    from fl_mono_pos[OF this] show ?thesis by (simp add: fl_minus)
  qed
qed

lemma fl_rel:
  assumes "1 / 2 ^ 1022 \<le> \<bar>x\<bar>"
  shows "\<bar>fl x - x\<bar> \<le> \<bar>x\<bar> / 2 ^ 53"
proof -
  have pos: "0 < \<bar>x\<bar>" using assms by (smt (verit) divide_pos_pos zero_less_power)
  have "(2::real) powr (- 1022) = 1 / 2 ^ 1022"
    by (simp add: powr_minus powr_realpow inverse_eq_divide flip: powr_realpow[of 2 1022])
  then have "2 powr (- 1022) \<le> \<bar>x\<bar>" using assms by simp
  then have "- 1022 \<le> log 2 \<bar>x\<bar>" using pos by (simp add: le_log_iff)
  then have "- 1022 \<le> \<lfloor>log 2 \<bar>x\<bar>\<rfloor>" by (simp add: le_floor_iff)
  then have e: "expo x = \<lfloor>log 2 \<bar>x\<bar>\<rfloor>" by (simp add: expo_def)
  have "of_int (expo x) \<le> log 2 \<bar>x\<bar>" unfolding e by simp
  then have "2 powr of_int (expo x) \<le> 2 powr log 2 \<bar>x\<bar>" by simp
  then have "2 powr of_int (expo x) \<le> \<bar>x\<bar>" using pos by simp
  moreover have "ulp x = 2 powr of_int (expo x) / 2 ^ 52"
    by (simp add: ulp_def powr_diff powr_realpow flip: powr_realpow[of 2 52])
  ultimately have "ulp x \<le> \<bar>x\<bar> / 2 ^ 52" by (simp add: divide_right_mono)
  then show ?thesis using fl_error_ulp[of x] by simp
qed

lemma fl_dyadic:
  assumes "\<bar>m\<bar> < 2 ^ 53" "k \<le> 1074"
  shows "fl (of_int m / 2 ^ k) = of_int m / 2 ^ k"
proof (cases "m = 0")
  case True
  then show ?thesis by simp
next
  case False
  define x :: real where "x = of_int m / 2 ^ k"
  have x0: "x \<noteq> 0" using False by (simp add: x_def)
  have "\<bar>real_of_int m\<bar> < 2 ^ 53" using assms(1)
    by (metis of_int_abs of_int_less_iff of_int_numeral of_int_power)
  then have "\<bar>x\<bar> < 2 ^ 53 / 2 ^ k" by (simp add: x_def divide_strict_right_mono)
  also have "\<dots> = 2 powr (of_int (52 - int k) + 1)"
    by (simp add: powr_diff powr_add powr_realpow flip: powr_realpow[of 2 53])
  finally have "expo x \<le> 52 - int k" using assms(2) x0 by (intro expo_le) auto
  then obtain j :: nat where j: "int j = 52 - int k - expo x"
    by (metis diff_ge_0_iff_ge nonneg_int_cases)
  have "x / ulp x = x * 2 powr (52 - of_int (expo x))"
    by (simp add: ulp_def powr_diff field_simps)
  also have "52 - real_of_int (expo x) = real k + real j" using j by linarith
  also have "x * 2 powr (real k + real j) = of_int (m * 2 ^ j)"
    by (simp add: x_def powr_add powr_realpow)
  finally have q: "x / ulp x = of_int (m * 2 ^ j)" .
  have "ulp x = 2 powr (- (real k + real j))"
  proof -
    have "real_of_int (expo x) - 52 = - (real k + real j)" using j by linarith
    then show ?thesis by (simp add: ulp_def)
  qed
  moreover have "(2::real) powr (- (real k + real j)) = 1 / (2 ^ k * 2 ^ j)"
  proof -
    have "(2::real) powr (- real (k + j)) = inverse (2 powr real (k + j))" by (rule powr_minus)
    also have "(2::real) powr real (k + j) = 2 ^ (k + j)" by (rule powr_realpow) simp
    finally show ?thesis by (simp add: power_add inverse_eq_divide)
  qed
  ultimately have u: "ulp x = 1 / (2 ^ k * 2 ^ j)" by simp
  have "fl x = of_int (m * 2 ^ j) * ulp x"
    using x0 unfolding fl_def q round_even_of_int by simp
  also have "\<dots> = x" unfolding u by (simp add: x_def)
  finally show ?thesis unfolding x_def .
qed

lemma fl_of_int:
  assumes "\<bar>n\<bar> < 2 ^ 53"
  shows "fl (of_int n) = of_int n"
  using fl_dyadic[OF assms, of 0] by simp

section \<open>Round trip of the colour conversions in exact arithmetic\<close>

lemma hue2rgb_rise:
  assumes "0 \<le> t" "t \<le> 1 / 6"
  shows "hue2rgb_real p q t = p + (q - p) * 6 * t"
proof (cases "t = 1 / 6")
  case True
  show ?thesis unfolding True by (simp add: hue2rgb_real_def diff_divide_distrib)
next
  case False
  then show ?thesis using assms by (auto simp: hue2rgb_real_def Let_def)
qed

lemma hue2rgb_top:
  assumes "1 / 6 \<le> t" "t \<le> 1 / 2"
  shows "hue2rgb_real p q t = q"
proof (cases "t = 1 / 2")
  case True
  show ?thesis unfolding True by (simp add: hue2rgb_real_def diff_divide_distrib)
next
  case False
  then show ?thesis using assms by (auto simp: hue2rgb_real_def Let_def)
qed

lemma hue2rgb_fall:
  assumes "1 / 2 \<le> t" "t \<le> 2 / 3"
  shows "hue2rgb_real p q t = p + (q - p) * (2 / 3 - t) * 6"
proof (cases "t = 2 / 3")
  case True
  show ?thesis unfolding True by (simp add: hue2rgb_real_def)
next
  case False
  then show ?thesis using assms by (auto simp: hue2rgb_real_def Let_def)
qed

lemma hue2rgb_low: "2 / 3 \<le> t \<Longrightarrow> t \<le> 1 \<Longrightarrow> hue2rgb_real p q t = p"
  by (auto simp: hue2rgb_real_def Let_def)

lemma hue2rgb_neg:
  assumes "- 1 / 3 \<le> t" "t \<le> 0"
  shows "hue2rgb_real p q t = p"
proof (cases "t = 0")
  case True
  show ?thesis unfolding True by (simp add: hue2rgb_real_def)
next
  case False
  then show ?thesis using assms by (auto simp: hue2rgb_real_def Let_def)
qed

lemma hue2rgb_wrap_rise:
  assumes "1 < t" "t \<le> 7 / 6"
  shows "hue2rgb_real p q t = p + (q - p) * 6 * (t - 1)"
proof (cases "t = 7 / 6")
  case True
  show ?thesis unfolding True by (simp add: hue2rgb_real_def diff_divide_distrib)
next
  case False
  then show ?thesis using assms by (auto simp: hue2rgb_real_def Let_def)
qed

lemma hue2rgb_wrap_top: "7 / 6 \<le> t \<Longrightarrow> t \<le> 4 / 3 \<Longrightarrow> hue2rgb_real p q t = q"
  by (auto simp: hue2rgb_real_def Let_def)

lemma chroma_sat:
  fixes mx mn :: real
  assumes "mn < mx" "0 \<le> mn" "mx \<le> 1"
  defines "l \<equiv> (mx + mn) / 2"
  defines "s \<equiv> (if l > 1 / 2 then (mx - mn) / (2 - mx - mn) else (mx - mn) / (mx + mn))"
  shows "0 < s" and "s \<le> 1"
    and "(if l < 1 / 2 then l * (1 + s) else l + s - l * s) = mx"
proof -
  show "0 < s" using assms by (auto simp: s_def l_def)
  show "s \<le> 1" using assms by (auto simp: s_def l_def)
  show "(if l < 1 / 2 then l * (1 + s) else l + s - l * s) = mx"
  proof (cases "l > 1 / 2")
    case True
    then have s: "s = (mx - mn) / (2 - mx - mn)" and pos: "2 - mx - mn > 0"
      using assms by (auto simp: s_def l_def)
    have "l + s - l * s = l + s * (1 - l)" by (simp add: algebra_simps)
    also have "s * (1 - l) = (mx - mn) / 2"
      using pos by (simp add: s l_def field_simps)
    finally show ?thesis using True by (simp add: l_def field_simps)
  next
    case False
    then have s: "s = (mx - mn) / (mx + mn)" and pos: "mx + mn > 0"
      using assms by (auto simp: s_def l_def)
    have ls: "l * s = (mx - mn) / 2"
      using pos by (simp add: s l_def field_simps)
    have "l * (1 + s) = l + l * s" by (simp add: algebra_simps)
    moreover have "l + s - l * s = mx" if "l = 1 / 2"
    proof -
      from that have "mx + mn = 1" by (simp add: l_def)
      then have "s = mx - mn" by (simp add: s)
      moreover have "l + s - l * s = 1 / 2 + s / 2" by (simp add: that)
      ultimately show ?thesis using \<open>mx + mn = 1\<close> by linarith
    qed
    ultimately show ?thesis using False ls by (auto simp: l_def field_simps)
  qed
qed


lemma hue_of_red_max:
  fixes r g b :: real
  assumes mx: "g \<le> r" "b \<le> r" and d: "d = r - min g b" "0 < d"
  defines "h \<equiv> ((g - b) / d + (if g < b then 6 else 0)) / 6"
  shows "hue2rgb_real (min g b) r (h + 1 / 3) = r \<and> hue2rgb_real (min g b) r h = g \<and>
         hue2rgb_real (min g b) r (h - 1 / 3) = b"
proof -
  define u where "u = (g - b) / d"
  have ud: "u * d = g - b" using d by (simp add: u_def)
  show ?thesis
  proof (cases "g < b")
    case True
    then have mn: "min g b = g" and dd: "d = r - g" using d by auto
    have u: "-1 \<le> u" "u < 0" using True d mx by (auto simp: u_def field_simps)
    have h: "h = 1 + u / 6" using True by (simp add: h_def u_def add_divide_distrib)
    have "hue2rgb_real g r (h + 1 / 3) = r"
      using u by (intro hue2rgb_wrap_top) (auto simp: h)
    moreover have "hue2rgb_real g r h = g"
      using u by (subst hue2rgb_low) (auto simp: h)
    moreover have "hue2rgb_real g r (h - 1 / 3) = g + (r - g) * (2 / 3 - (h - 1 / 3)) * 6"
      using u by (intro hue2rgb_fall) (auto simp: h)
    moreover have "2 / 3 - (h - 1 / 3) = - u / 6" by (simp add: h)
    then have "g + (r - g) * (2 / 3 - (h - 1 / 3)) * 6 = g - d * u"
      by (simp add: dd)
    ultimately show ?thesis using ud by (simp add: mn mult.commute)
  next
    case False
    then have mn: "min g b = b" and dd: "d = r - b" using d by auto
    have u: "0 \<le> u" "u \<le> 1" using False d mx by (auto simp: u_def field_simps)
    have h: "h = u / 6" using False by (simp add: h_def u_def)
    have "hue2rgb_real b r (h + 1 / 3) = r"
      using u by (intro hue2rgb_top) (auto simp: h)
    moreover have "hue2rgb_real b r h = b + (r - b) * 6 * h"
      using u by (intro hue2rgb_rise) (auto simp: h)
    moreover have "b + (r - b) * 6 * h = b + d * u" by (simp add: h dd algebra_simps)
    moreover have "hue2rgb_real b r (h - 1 / 3) = b"
      using u by (subst hue2rgb_neg) (auto simp: h)
    ultimately show ?thesis using ud by (simp add: mn mult.commute)
  qed
qed


lemma hue_of_green_max:
  fixes r g b :: real
  assumes mx: "r \<le> g" "b \<le> g" and d: "d = g - min r b" "0 < d"
  defines "h \<equiv> ((b - r) / d + 2) / 6"
  shows "hue2rgb_real (min r b) g (h + 1 / 3) = r \<and> hue2rgb_real (min r b) g h = g \<and>
         hue2rgb_real (min r b) g (h - 1 / 3) = b"
proof -
  define v where "v = (b - r) / d"
  have vd: "v * d = b - r" using d by (simp add: v_def)
  have h: "h = 1 / 3 + v / 6" by (simp add: h_def v_def add_divide_distrib)
  have v: "-1 \<le> v" "v \<le> 1" using d mx by (auto simp: v_def field_simps)
  have green: "hue2rgb_real (min r b) g h = g"
    using v by (intro hue2rgb_top) (auto simp: h)
  show ?thesis
  proof (cases "b < r")
    case True
    then have mn: "min r b = b" and dd: "d = g - b" using d by auto
    have neg: "v < 0" using True d by (auto simp: v_def field_simps)
    have "hue2rgb_real b g (h + 1 / 3) = b + (g - b) * (2 / 3 - (h + 1 / 3)) * 6"
      using v neg by (intro hue2rgb_fall) (auto simp: h)
    moreover have "2 / 3 - (h + 1 / 3) = - v / 6" by (simp add: h)
    then have "b + (g - b) * (2 / 3 - (h + 1 / 3)) * 6 = b - d * v" by (simp add: dd)
    moreover have "hue2rgb_real b g (h - 1 / 3) = b"
      using v neg by (intro hue2rgb_neg) (auto simp: h)
    ultimately show ?thesis using vd green by (simp add: mn mult.commute)
  next
    case False
    then have mn: "min r b = r" and dd: "d = g - r" using d by auto
    have pos: "0 \<le> v" using False d by (auto simp: v_def field_simps)
    have "hue2rgb_real r g (h + 1 / 3) = r"
      using v pos by (intro hue2rgb_low) (auto simp: h)
    moreover have "hue2rgb_real r g (h - 1 / 3) = r + (g - r) * 6 * (h - 1 / 3)"
      using v pos by (intro hue2rgb_rise) (auto simp: h)
    moreover have "r + (g - r) * 6 * (h - 1 / 3) = r + d * v" by (simp add: h dd)
    ultimately show ?thesis using vd green by (simp add: mn mult.commute)
  qed
qed

lemma hue_of_blue_max:
  fixes r g b :: real
  assumes mx: "r \<le> b" "g \<le> b" and d: "d = b - min r g" "0 < d"
  defines "h \<equiv> ((r - g) / d + 4) / 6"
  shows "hue2rgb_real (min r g) b (h + 1 / 3) = r \<and> hue2rgb_real (min r g) b h = g \<and>
         hue2rgb_real (min r g) b (h - 1 / 3) = b"
proof -
  define v where "v = (r - g) / d"
  have vd: "v * d = r - g" using d by (simp add: v_def)
  have h: "h = 2 / 3 + v / 6" by (simp add: h_def v_def add_divide_distrib)
  have v: "-1 \<le> v" "v \<le> 1" using d mx by (auto simp: v_def field_simps)
  have blue: "hue2rgb_real (min r g) b (h - 1 / 3) = b"
    using v by (intro hue2rgb_top) (auto simp: h)
  show ?thesis
  proof (cases "g < r")
    case True
    then have mn: "min r g = g" and dd: "d = b - g" using d by auto
    have pos: "0 < v" using True d by (auto simp: v_def field_simps)
    have "hue2rgb_real g b (h + 1 / 3) = g + (b - g) * 6 * (h + 1 / 3 - 1)"
      using v pos by (intro hue2rgb_wrap_rise) (auto simp: h)
    moreover have "g + (b - g) * 6 * (h + 1 / 3 - 1) = g + d * v" by (simp add: h dd)
    moreover have "hue2rgb_real g b h = g"
      using v pos by (intro hue2rgb_low) (auto simp: h)
    ultimately show ?thesis using vd blue by (simp add: mn mult.commute)
  next
    case False
    then have mn: "min r g = r" and dd: "d = b - r" using d by auto
    have neg: "v \<le> 0" using False d by (auto simp: v_def field_simps)
    have "hue2rgb_real r b (h + 1 / 3) = r"
      using v neg by (intro hue2rgb_low) (auto simp: h)
    moreover have "hue2rgb_real r b h = r + (b - r) * (2 / 3 - h) * 6"
      using v neg by (intro hue2rgb_fall) (auto simp: h)
    moreover have "2 / 3 - h = - v / 6" by (simp add: h)
    then have "r + (b - r) * (2 / 3 - h) * 6 = r - d * v" by (simp add: dd)
    ultimately show ?thesis using vd blue by (simp add: mn mult.commute)
  qed
qed

text \<open>An error of less than one half leaves the result of \<open>Math.round\<close> as it is.\<close>

lemma Math_round_stable:
  assumes "\<bar>e\<bar> < 1 / 2"
  shows "Math_round (real n + e) = real n"
proof -
  have "\<lfloor>real n + e + 1 / 2\<rfloor> = int n" using assms by (intro floor_unique) auto
  then show ?thesis by (simp add: Math_round_def)
qed

section \<open>The hue ramp in closed form\<close>

lemma trapezoid_range: "0 \<le> trapezoid t \<and> trapezoid t \<le> 1"
  by (simp add: trapezoid_def clamp01_def)

lemma clamp01_lipschitz: "\<bar>x - y\<bar> \<le> e \<Longrightarrow> \<bar>clamp01 x - clamp01 y\<bar> \<le> e"
  unfolding clamp01_def by linarith

lemma trapezoid_lipschitz:
  assumes "\<bar>a - b\<bar> \<le> e"
  shows "\<bar>trapezoid a - trapezoid b\<bar> \<le> 6 * e"
proof -
  have "\<bar>min (6 * a) (4 - 6 * a) - min (6 * b) (4 - 6 * b)\<bar> \<le> 6 * e"
    using assms by (auto simp: min_def abs_if split: if_splits)
  then show ?thesis unfolding trapezoid_def by (rule clamp01_lipschitz)
qed

lemma trapezoid_rise: "0 \<le> t \<Longrightarrow> t \<le> 1 / 6 \<Longrightarrow> trapezoid t = 6 * t"
  unfolding trapezoid_def clamp01_def by linarith

lemma trapezoid_top: "1 / 6 \<le> t \<Longrightarrow> t \<le> 1 / 2 \<Longrightarrow> trapezoid t = 1"
  unfolding trapezoid_def clamp01_def by linarith

lemma trapezoid_fall: "1 / 2 \<le> t \<Longrightarrow> t \<le> 2 / 3 \<Longrightarrow> trapezoid t = 4 - 6 * t"
  unfolding trapezoid_def clamp01_def by linarith

lemma trapezoid_left: "t \<le> 0 \<Longrightarrow> trapezoid t = 0"
  unfolding trapezoid_def clamp01_def by linarith

lemma trapezoid_right: "2 / 3 \<le> t \<Longrightarrow> trapezoid t = 0"
  unfolding trapezoid_def clamp01_def by linarith

lemma hue_wave_range: "0 \<le> hue_wave t \<and> hue_wave t \<le> 1"
proof -
  consider "t \<le> - (1 / 3)" | "- (1 / 3) \<le> t" "t \<le> 1" | "1 \<le> t" by linarith
  then show ?thesis
  proof cases
    case 1
    then have "trapezoid t = 0" "trapezoid (t - 1) = 0" by (simp_all add: trapezoid_left)
    then show ?thesis using trapezoid_range[of "t + 1"] by (simp add: hue_wave_def)
  next
    case 2
    then have "trapezoid (t + 1) = 0" "trapezoid (t - 1) = 0"
      by (simp_all add: trapezoid_left trapezoid_right)
    then show ?thesis using trapezoid_range[of t] by (simp add: hue_wave_def)
  next
    case 3
    then have "trapezoid (t + 1) = 0" "trapezoid t = 0" by (simp_all add: trapezoid_right)
    then show ?thesis using trapezoid_range[of "t - 1"] by (simp add: hue_wave_def)
  qed
qed

lemma hue_wave_lipschitz:
  assumes "\<bar>a - b\<bar> \<le> e"
  shows "\<bar>hue_wave a - hue_wave b\<bar> \<le> 18 * e"
proof -
  have "\<bar>trapezoid (a + 1) - trapezoid (b + 1)\<bar> \<le> 6 * e"
    using assms by (intro trapezoid_lipschitz) simp
  moreover have "\<bar>trapezoid (a - 1) - trapezoid (b - 1)\<bar> \<le> 6 * e"
    using assms by (intro trapezoid_lipschitz) simp
  ultimately show ?thesis
    using trapezoid_lipschitz[OF assms] unfolding hue_wave_def by linarith
qed

lemma hue2rgb_real_wave:
  assumes "- 1 \<le> t" "t \<le> 2"
  shows "hue2rgb_real p q t = p + (q - p) * hue_wave t"
proof -
  define t1 where "t1 = (if t < 0 then t + 1 else t)"
  define \<theta> where "\<theta> = (if t1 > 1 then t1 - 1 else t1)"
  have \<theta>: "0 \<le> \<theta>" "\<theta> \<le> 1" using assms by (auto simp: t1_def \<theta>_def)
  have w: "hue_wave t = trapezoid \<theta>"
  proof -
    consider "t < 0" | "0 \<le> t" "t \<le> 1" | "1 < t" by linarith
    then show ?thesis
    proof cases
      case 1
      then have "trapezoid t = 0" "trapezoid (t - 1) = 0" "\<theta> = t + 1"
        using assms by (simp_all add: trapezoid_left t1_def \<theta>_def)
      then show ?thesis by (simp add: hue_wave_def)
    next
      case 2
      then have "trapezoid (t + 1) = 0" "trapezoid (t - 1) = 0" "\<theta> = t"
        by (simp_all add: trapezoid_left trapezoid_right t1_def \<theta>_def)
      then show ?thesis by (simp add: hue_wave_def)
    next
      case 3
      then have "trapezoid (t + 1) = 0" "trapezoid t = 0" "\<theta> = t - 1"
        by (simp_all add: trapezoid_right t1_def \<theta>_def)
      then show ?thesis by (simp add: hue_wave_def)
    qed
  qed
  have val: "hue2rgb_real p q t =
    (if \<theta> < 1 / 6 then p + (q - p) * 6 * \<theta> else if \<theta> < 1 / 2 then q
     else if \<theta> < 2 / 3 then p + (q - p) * (2 / 3 - \<theta>) * 6 else p)"
    by (simp add: hue2rgb_real_def Let_def t1_def \<theta>_def)
  consider "\<theta> < 1 / 6" | "1 / 6 \<le> \<theta>" "\<theta> < 1 / 2" | "1 / 2 \<le> \<theta>" "\<theta> < 2 / 3" | "2 / 3 \<le> \<theta>"
    by linarith
  then show ?thesis
  proof cases
    case 1
    then show ?thesis using \<theta> by (simp add: val w trapezoid_rise)
  next
    case 2
    then show ?thesis by (simp add: val w trapezoid_top)
  next
    case 3
    have "(2 / 3 - \<theta>) * 6 = 4 - 6 * \<theta>" by simp
    then have "p + (q - p) * (2 / 3 - \<theta>) * 6 = p + (q - p) * (4 - 6 * \<theta>)"
      by (simp only: mult.assoc)
    then show ?thesis using 3 by (simp add: val w trapezoid_fall)
  next
    case 4
    then show ?thesis by (simp add: val w trapezoid_right)
  qed
qed

lemma fl_sixth: "fl (1 / 6) = 6004799503160661 / 2 ^ 55"
  by (rule fl_num[where k = 55]) (simp_all add: round_even_def)

lemma fl_third: "fl (1 / 3) = 6004799503160661 / 2 ^ 54"
  by (rule fl_num[where k = 54]) (simp_all add: round_even_def)

lemma fl_two_thirds: "fl (2 / 3) = 6004799503160661 / 2 ^ 53"
  by (rule fl_num[where k = 53]) (simp_all add: round_even_def)

lemma fl_one [simp]: "fl 1 = 1"
  using fl_of_int[of 1] by simp

lemma fl_unit:
  assumes "0 \<le> x" "x \<le> 1"
  shows "0 \<le> fl x \<and> fl x \<le> 1"
  using fl_mono[OF assms(1)] fl_mono[OF assms(2)] by simp

lemma abs_mult_unit:
  fixes a x :: real
  assumes "0 \<le> x" "x \<le> 1"
  shows "\<bar>a * x\<bar> \<le> \<bar>a\<bar>"
proof -
  have "\<bar>a * x\<bar> = \<bar>a\<bar> * x" using assms by (simp add: abs_mult)
  also have "\<dots> \<le> \<bar>a\<bar> * 1" using assms by (intro mult_left_mono) auto
  finally show ?thesis by simp
qed

lemma abs_mult_le:
  fixes a b :: real
  assumes "\<bar>a\<bar> \<le> A" "\<bar>b\<bar> \<le> B"
  shows "\<bar>a * b\<bar> \<le> A * B"
  unfolding abs_mult using assms by (intro mult_mono) auto

lemma unit_roundoff_pos: "0 < unit_roundoff"
  by (simp add: unit_roundoff_def)

lemma unit_roundoff_small: "unit_roundoff \<le> 1 / 1000000000000000"
  by (simp add: unit_roundoff_def)

lemma fl_err:
  "\<bar>x\<bar> \<le> 1 \<Longrightarrow> \<bar>fl x - x\<bar> \<le> unit_roundoff"
  "\<bar>x\<bar> \<le> 2 \<Longrightarrow> \<bar>fl x - x\<bar> \<le> 2 * unit_roundoff"
  "\<bar>x\<bar> \<le> 4 \<Longrightarrow> \<bar>fl x - x\<bar> \<le> 4 * unit_roundoff"
  "\<bar>x\<bar> \<le> 8 \<Longrightarrow> \<bar>fl x - x\<bar> \<le> 8 * unit_roundoff"
  "\<bar>x\<bar> \<le> 16 \<Longrightarrow> \<bar>fl x - x\<bar> \<le> 16 * unit_roundoff"
  "\<bar>x\<bar> \<le> 32 \<Longrightarrow> \<bar>fl x - x\<bar> \<le> 32 * unit_roundoff"
  "\<bar>x\<bar> \<le> 64 \<Longrightarrow> \<bar>fl x - x\<bar> \<le> 64 * unit_roundoff"
  "\<bar>x\<bar> \<le> 256 \<Longrightarrow> \<bar>fl x - x\<bar> \<le> 256 * unit_roundoff"
  "\<bar>x\<bar> \<le> 512 \<Longrightarrow> \<bar>fl x - x\<bar> \<le> 512 * unit_roundoff"
  using fl_error[of x 0] fl_error[of x 1] fl_error[of x 2] fl_error[of x 3] fl_error[of x 4]
    fl_error[of x 5] fl_error[of x 6] fl_error[of x 8] fl_error[of x 9]
  by (simp_all add: unit_roundoff_def)

text \<open>The wrapped argument of the program and the ramp at it.\<close>

lemma hue_wrap:
  assumes "- 1 \<le> t" "t \<le> 2"
  defines "t1 \<equiv> (if t < 0 then fl (t + 1) else t)"
  defines "\<theta> \<equiv> (if t1 > 1 then fl (t1 - 1) else t1)"
  shows "0 \<le> \<theta>" "\<theta> \<le> 1" "\<bar>trapezoid \<theta> - hue_wave t\<bar> \<le> 6 * unit_roundoff"
proof -
  consider (neg) "t < 0" | (mid) "0 \<le> t" "t \<le> 1" | (hi) "1 < t" by linarith
  then have "0 \<le> \<theta> \<and> \<theta> \<le> 1 \<and> \<bar>trapezoid \<theta> - hue_wave t\<bar> \<le> 6 * unit_roundoff"
  proof cases
    case neg
    have u: "0 \<le> fl (t + 1) \<and> fl (t + 1) \<le> 1" using neg assms(1) by (intro fl_unit) auto
    then have th: "\<theta> = fl (t + 1)" using neg by (simp add: t1_def \<theta>_def)
    have "\<bar>fl (t + 1) - (t + 1)\<bar> \<le> unit_roundoff"
      using neg assms(1) by (intro fl_err) auto
    then have "\<bar>trapezoid \<theta> - trapezoid (t + 1)\<bar> \<le> 6 * unit_roundoff"
      unfolding th by (rule trapezoid_lipschitz)
    moreover have "trapezoid t = 0" "trapezoid (t - 1) = 0"
      using neg by (simp_all add: trapezoid_left)
    ultimately show ?thesis using u th by (simp add: hue_wave_def)
  next
    case mid
    then have th: "\<theta> = t" by (simp add: t1_def \<theta>_def)
    have "trapezoid (t + 1) = 0" "trapezoid (t - 1) = 0"
      using mid by (simp_all add: trapezoid_left trapezoid_right)
    then show ?thesis using mid th unit_roundoff_pos by (simp add: hue_wave_def)
  next
    case hi
    then have th: "\<theta> = fl (t - 1)" by (simp add: t1_def \<theta>_def)
    have u: "0 \<le> fl (t - 1) \<and> fl (t - 1) \<le> 1" using hi assms(2) by (intro fl_unit) auto
    have "\<bar>fl (t - 1) - (t - 1)\<bar> \<le> unit_roundoff"
      using hi assms(2) by (intro fl_err) auto
    then have "\<bar>trapezoid \<theta> - trapezoid (t - 1)\<bar> \<le> 6 * unit_roundoff"
      unfolding th by (rule trapezoid_lipschitz)
    moreover have "trapezoid (t + 1) = 0" "trapezoid t = 0"
      using hi by (simp_all add: trapezoid_right)
    ultimately show ?thesis using u th by (simp add: hue_wave_def)
  qed
  then show "0 \<le> \<theta>" "\<theta> \<le> 1" "\<bar>trapezoid \<theta> - hue_wave t\<bar> \<le> 6 * unit_roundoff"
    by blast+
qed

lemma hue2rgb_ramp:
  assumes t: "- 1 \<le> t" "t \<le> 2" and p: "\<bar>p\<bar> \<le> 2" and q: "\<bar>q\<bar> \<le> 2"
  shows "\<bar>hue2rgb p q t - (p + (q - p) * hue_wave t)\<bar> \<le> 300 * unit_roundoff"
proof -
  define u where "u = unit_roundoff"
  have u: "0 < u" "u \<le> 1 / 1000000000000000"
    unfolding u_def by (rule unit_roundoff_pos, rule unit_roundoff_small)
  note err = fl_err[folded u_def]
  define t1 where "t1 = (if t < 0 then fl (t + 1) else t)"
  define \<theta> where "\<theta> = (if t1 > 1 then fl (t1 - 1) else t1)"
  have \<theta>: "0 \<le> \<theta>" "\<theta> \<le> 1" and w: "\<bar>trapezoid \<theta> - hue_wave t\<bar> \<le> 6 * u"
    unfolding \<theta>_def t1_def u_def by (rule hue_wrap[OF t])+
  define c1 :: real where "c1 = 6004799503160661 / 2 ^ 55"
  define c2 :: real where "c2 = 6004799503160661 / 2 ^ 53"
  have c1: "c1 < 1 / 6" "1 - u \<le> 6 * c1" "c1 < 1 / 2"
    by (simp_all add: c1_def u_def unit_roundoff_def)
  have c2: "c2 < 2 / 3" "2 / 3 - c2 \<le> u" "1 / 2 < c2"
    by (simp_all add: c2_def u_def unit_roundoff_def)
  define \<Delta> where "\<Delta> = fl (q - p)"
  have pq: "\<bar>q - p\<bar> \<le> 4" using p q by linarith
  have d: "\<bar>\<Delta> - (q - p)\<bar> \<le> 4 * u"
    unfolding \<Delta>_def using pq by (rule err)
  then have d5: "\<bar>\<Delta>\<bar> \<le> 5" using pq u by linarith
  have val: "hue2rgb p q t =
    (if \<theta> < c1 then fl (p + fl (fl (\<Delta> * 6) * \<theta>))
     else if \<theta> < 1 / 2 then q
     else if \<theta> < c2 then fl (p + fl (fl (\<Delta> * fl (c2 - \<theta>)) * 6))
     else p)"
    by (simp add: hue2rgb_def Let_def t1_def \<theta>_def \<Delta>_def fl_sixth fl_two_thirds c1_def c2_def)
  have near: "\<bar>hue2rgb p q t - (p + (q - p) * trapezoid \<theta>)\<bar> \<le> 260 * u"
  proof -
    consider (rise) "\<theta> < c1" | (top) "c1 \<le> \<theta>" "\<theta> < 1 / 2" | (fall) "1 / 2 \<le> \<theta>" "\<theta> < c2"
      | (low) "c2 \<le> \<theta>"
      using c2 by linarith
    then show ?thesis
    proof cases
      case rise
      define A2 where "A2 = fl (\<Delta> * 6)"
      define A3 where "A3 = fl (A2 * \<theta>)"
      define v where "v = fl (p + A3)"
      have hv: "hue2rgb p q t = v" using rise by (simp add: val v_def A3_def A2_def)
      have tr: "trapezoid \<theta> = 6 * \<theta>" using rise \<theta> c1 by (intro trapezoid_rise) auto
      have "\<bar>\<Delta> * 6\<bar> \<le> 32" using d5 by linarith
      then have e2: "\<bar>A2 - \<Delta> * 6\<bar> \<le> 32 * u" unfolding A2_def by (rule err)
      then have a2: "\<bar>A2\<bar> \<le> 31" using d5 u by linarith
      have a2t: "\<bar>A2 * \<theta>\<bar> \<le> \<bar>A2\<bar>" using \<theta> by (rule abs_mult_unit)
      then have "\<bar>A2 * \<theta>\<bar> \<le> 32" using a2 by linarith
      then have e3: "\<bar>A3 - A2 * \<theta>\<bar> \<le> 32 * u" unfolding A3_def by (rule err)
      then have a3: "\<bar>A3\<bar> \<le> 32" using a2 a2t u by linarith
      then have "\<bar>p + A3\<bar> \<le> 64" using p by linarith
      then have e4: "\<bar>v - (p + A3)\<bar> \<le> 64 * u" unfolding v_def by (rule err)
      have x1: "\<bar>(A2 - \<Delta> * 6) * \<theta>\<bar> \<le> \<bar>A2 - \<Delta> * 6\<bar>" using \<theta> by (rule abs_mult_unit)
      have x2: "\<bar>(\<Delta> - (q - p)) * \<theta>\<bar> \<le> \<bar>\<Delta> - (q - p)\<bar>" using \<theta> by (rule abs_mult_unit)
      have "v - (p + (q - p) * (6 * \<theta>)) =
          (v - (p + A3)) + (A3 - A2 * \<theta>) + (A2 - \<Delta> * 6) * \<theta> + 6 * ((\<Delta> - (q - p)) * \<theta>)"
        by (simp add: algebra_simps)
      then have "\<bar>v - (p + (q - p) * (6 * \<theta>))\<bar> \<le> 152 * u"
        using e4 e3 e2 d x1 x2 by linarith
      then show ?thesis unfolding hv tr using u by linarith
    next
      case top
      have hv: "hue2rgb p q t = q" using top by (simp add: val)
      define T where "T = trapezoid \<theta>"
      have "min (6 * \<theta>) (4 - 6 * \<theta>) \<ge> 1 - u" using top c1 by simp
      then have T: "1 - u \<le> T" "T \<le> 1"
        unfolding T_def trapezoid_def clamp01_def using u by simp_all
      have "q - (p + (q - p) * T) = (q - p) * (1 - T)" by (simp add: algebra_simps)
      moreover have "\<bar>(q - p) * (1 - T)\<bar> \<le> 4 * u"
        using pq T by (intro abs_mult_le) auto
      ultimately show ?thesis unfolding hv T_def using u by linarith
    next
      case fall
      define B1 where "B1 = fl (c2 - \<theta>)"
      define B2 where "B2 = fl (\<Delta> * B1)"
      define B3 where "B3 = fl (B2 * 6)"
      define v where "v = fl (p + B3)"
      have hv: "hue2rgb p q t = v" using fall c1 by (simp add: val v_def B3_def B2_def B1_def)
      have tr: "trapezoid \<theta> = 4 - 6 * \<theta>" using fall c2 by (intro trapezoid_fall) auto
      have "\<bar>c2 - \<theta>\<bar> \<le> 1" using fall c2 by linarith
      then have e5: "\<bar>B1 - (c2 - \<theta>)\<bar> \<le> u" unfolding B1_def by (rule err)
      then have b1: "\<bar>B1\<bar> \<le> 1" using fall c2 u by linarith
      have db: "\<bar>\<Delta> * B1\<bar> \<le> 5 * 1" using d5 b1 by (rule abs_mult_le)
      then have "\<bar>\<Delta> * B1\<bar> \<le> 8" by linarith
      then have e6: "\<bar>B2 - \<Delta> * B1\<bar> \<le> 8 * u" unfolding B2_def by (rule err)
      then have b2: "\<bar>B2\<bar> \<le> 6" using db u by linarith
      then have "\<bar>B2 * 6\<bar> \<le> 64" by linarith
      then have e7: "\<bar>B3 - B2 * 6\<bar> \<le> 64 * u" unfolding B3_def by (rule err)
      then have b3: "\<bar>B3\<bar> \<le> 37" using b2 u by linarith
      then have "\<bar>p + B3\<bar> \<le> 64" using p by linarith
      then have e8: "\<bar>v - (p + B3)\<bar> \<le> 64 * u" unfolding v_def by (rule err)
      have "\<bar>B1 - (2 / 3 - \<theta>)\<bar> \<le> 2 * u" using e5 c2 by linarith
      with d5 have y1: "\<bar>\<Delta> * (B1 - (2 / 3 - \<theta>))\<bar> \<le> 5 * (2 * u)" by (rule abs_mult_le)
      have "\<bar>2 / 3 - \<theta>\<bar> \<le> 1" using fall c2 by linarith
      with d have y2: "\<bar>(\<Delta> - (q - p)) * (2 / 3 - \<theta>)\<bar> \<le> 4 * u * 1" by (rule abs_mult_le)
      define E1 where "E1 = v - (p + B3)"
      define E2 where "E2 = B3 - B2 * 6"
      define E3 where "E3 = B2 - \<Delta> * B1"
      define E4 where "E4 = \<Delta> * (B1 - (2 / 3 - \<theta>))"
      define E5 where "E5 = (\<Delta> - (q - p)) * (2 / 3 - \<theta>)"
      have "v - (p + (q - p) * (4 - 6 * \<theta>)) = E1 + E2 + 6 * E3 + 6 * E4 + 6 * E5"
        unfolding E1_def E2_def E3_def E4_def E5_def by (simp add: field_simps)
      moreover have "\<bar>E1\<bar> \<le> 64 * u" "\<bar>E2\<bar> \<le> 64 * u" "\<bar>E3\<bar> \<le> 8 * u" "\<bar>E4\<bar> \<le> 10 * u"
        "\<bar>E5\<bar> \<le> 4 * u"
        using e8 e7 e6 y1 y2 unfolding E1_def E2_def E3_def E4_def E5_def by simp_all
      ultimately have "\<bar>v - (p + (q - p) * (4 - 6 * \<theta>))\<bar> \<le> 260 * u"
        by linarith
      then show ?thesis unfolding hv tr .
    next
      case low
      have hv: "hue2rgb p q t = p" using low c1 c2 by (simp add: val)
      define T where "T = trapezoid \<theta>"
      have "min (6 * \<theta>) (4 - 6 * \<theta>) \<le> 6 * u" using low c2 by simp
      then have T: "0 \<le> T" "T \<le> 6 * u"
        unfolding T_def trapezoid_def clamp01_def using u by simp_all
      have "\<bar>(q - p) * T\<bar> \<le> 4 * (6 * u)"
        using pq T by (intro abs_mult_le) auto
      then show ?thesis unfolding hv T_def using u by simp
    qed
  qed
  have "\<bar>(q - p) * (trapezoid \<theta> - hue_wave t)\<bar> \<le> 4 * (6 * u)"
    using pq w by (rule abs_mult_le)
  moreover have "hue2rgb p q t - (p + (q - p) * hue_wave t) =
      (hue2rgb p q t - (p + (q - p) * trapezoid \<theta>)) + (q - p) * (trapezoid \<theta> - hue_wave t)"
    by (simp add: algebra_simps)
  ultimately show ?thesis using near unfolding u_def by linarith
qed

section \<open>Ranges of the colour conversions\<close>

lemma fl_exact:
  "fl 2 = 2" "fl 6 = 6" "fl 7 = 7" "fl 255 = 255" "fl (1 / 2) = 1 / 2" "fl (3 / 2) = 3 / 2"
  "fl (1 / 256) = 1 / 256"
  using fl_of_int[of 2] fl_of_int[of 6] fl_of_int[of 7] fl_of_int[of 255]
    fl_dyadic[of 1 1] fl_dyadic[of 3 1] fl_dyadic[of 1 8]
  by simp_all

lemma fl_between:
  assumes "a \<le> x" "x \<le> b" "fl a = a" "fl b = b"
  shows "a \<le> fl x \<and> fl x \<le> b"
  using fl_mono[OF assms(1)] fl_mono[OF assms(2)] assms(3,4) by simp

lemma convex_between:
  fixes p q w lo hi :: real
  assumes "0 \<le> w" "w \<le> 1" "lo \<le> p" "p \<le> hi" "lo \<le> q" "q \<le> hi"
  shows "lo \<le> p + (q - p) * w \<and> p + (q - p) * w \<le> hi"
proof -
  have "p + (q - p) * w - lo = (1 - w) * (p - lo) + w * (q - lo)" by (simp add: algebra_simps)
  moreover have "0 \<le> (1 - w) * (p - lo)" "0 \<le> w * (q - lo)"
    using assms by (auto intro!: mult_nonneg_nonneg)
  moreover have "hi - (p + (q - p) * w) = (1 - w) * (hi - p) + w * (hi - q)"
    by (simp add: algebra_simps)
  moreover have "0 \<le> (1 - w) * (hi - p)" "0 \<le> w * (hi - q)"
    using assms by (auto intro!: mult_nonneg_nonneg)
  ultimately show ?thesis by linarith
qed

text \<open>A channel within a few roundings of \<open>[0, 1]\<close> becomes an integer of \<open>[0, 255]\<close>.\<close>

lemma Math_round_channel:
  assumes "- (1000 * unit_roundoff) \<le> c" "c \<le> 1 + 1000 * unit_roundoff"
  shows "\<exists>n\<le>255. Math_round (fl (c * 255)) = real n"
proof -
  define u where "u = unit_roundoff"
  have u: "0 < u" "u \<le> 1 / 1000000000000000"
    unfolding u_def by (rule unit_roundoff_pos, rule unit_roundoff_small)
  define X where "X = fl (c * 255)"
  have "\<bar>c * 255\<bar> \<le> 256" using assms u unfolding u_def[symmetric] by linarith
  then have "\<bar>X - c * 255\<bar> \<le> 256 * u" unfolding X_def u_def by (rule fl_err)
  then have X: "- (1 / 4) \<le> X" "X \<le> 255 + 1 / 4"
    using assms u unfolding u_def[symmetric] by linarith+
  define k where "k = \<lfloor>X + 1 / 2\<rfloor>"
  have "0 \<le> k" unfolding k_def using X by simp
  moreover have "k \<le> 255" unfolding k_def using X by (simp add: floor_le_iff)
  ultimately have "nat k \<le> 255" "real (nat k) = of_int k" by simp_all
  then show ?thesis unfolding X_def[symmetric] Math_round_def k_def[symmetric] by metis
qed

lemma chroma_range:
  assumes l: "0 \<le> l" "l \<le> 1" and s: "0 \<le> s" "s \<le> 1"
  defines "q \<equiv> (if l < 1 / 2 then fl (l * fl (1 + s)) else fl (fl (l + s) - fl (l * s)))"
  defines "p \<equiv> fl (fl (2 * l) - q)"
  shows "- (16 * unit_roundoff) \<le> q \<and> q \<le> 1 + 16 * unit_roundoff
       \<and> - (16 * unit_roundoff) \<le> p \<and> p \<le> 1 + 16 * unit_roundoff"
proof -
  define u where "u = unit_roundoff"
  have u: "0 < u" "u \<le> 1 / 1000000000000000"
    unfolding u_def by (rule unit_roundoff_pos, rule unit_roundoff_small)
  note err = fl_err[folded u_def]
  define ls where "ls = l * s"
  have ls: "0 \<le> ls" "ls \<le> l" "ls \<le> s" "l + s - ls \<le> 1"
  proof -
    show "0 \<le> ls" unfolding ls_def using l s by (intro mult_nonneg_nonneg)
    have "l * s \<le> l * 1" using l s by (intro mult_left_mono) auto
    then show "ls \<le> l" by (simp add: ls_def)
    have "l * s \<le> 1 * s" using l s by (intro mult_right_mono) auto
    then show "ls \<le> s" by (simp add: ls_def)
    have "0 \<le> (1 - l) * (1 - s)" using l s by (intro mult_nonneg_nonneg) auto
    then show "l + s - ls \<le> 1" by (simp add: ls_def algebra_simps)
  qed
  define L2 where "L2 = fl (2 * l)"
  have L2: "\<bar>L2 - 2 * l\<bar> \<le> 2 * u" unfolding L2_def using l by (intro err) auto
  show ?thesis
  proof (cases "l < 1 / 2")
    case True
    define a where "a = fl (1 + s)"
    have a: "1 \<le> a" "a \<le> 2" "\<bar>a - (1 + s)\<bar> \<le> 2 * u"
    proof -
      have "1 \<le> fl (1 + s) \<and> fl (1 + s) \<le> 2"
        using s by (intro fl_between) (auto simp: fl_exact)
      then show "1 \<le> a" "a \<le> 2" by (simp_all add: a_def)
      show "\<bar>a - (1 + s)\<bar> \<le> 2 * u" unfolding a_def using s by (intro err) auto
    qed
    define la where "la = l * a"
    have la: "0 \<le> la" "la \<le> 2 * l" "l \<le> la"
    proof -
      show "0 \<le> la" unfolding la_def using l a by (intro mult_nonneg_nonneg) auto
      have "l * a \<le> l * 2" using l a by (intro mult_left_mono) auto
      then show "la \<le> 2 * l" by (simp add: la_def)
      have "l * 1 \<le> l * a" using l a by (intro mult_left_mono) auto
      then show "l \<le> la" by (simp add: la_def)
    qed
    have q: "q = fl la" using True by (simp add: q_def la_def a_def)
    have eq: "\<bar>q - la\<bar> \<le> u" unfolding q using la True by (intro err) auto
    have "\<bar>L2 - q\<bar> \<le> 4" using eq L2 la l True u by linarith
    then have ep: "\<bar>p - (L2 - q)\<bar> \<le> 4 * u" unfolding p_def L2_def[symmetric] by (rule err)
    show ?thesis using eq ep L2 la l True u unfolding u_def[symmetric] by linarith
  next
    case False
    define A where "A = fl (l + s)"
    define Bp where "Bp = fl ls"
    have A: "\<bar>A - (l + s)\<bar> \<le> 2 * u" unfolding A_def using l s by (intro err) auto
    have Bp: "\<bar>Bp - ls\<bar> \<le> u" unfolding Bp_def using ls l by (intro err) auto
    have q: "q = fl (A - Bp)" using False by (simp add: q_def A_def Bp_def ls_def)
    have "\<bar>A - Bp\<bar> \<le> 4" using A Bp ls l s u by linarith
    then have eq: "\<bar>q - (A - Bp)\<bar> \<le> 4 * u" unfolding q by (rule err)
    have "\<bar>L2 - q\<bar> \<le> 4" using eq A Bp L2 ls l s u by linarith
    then have ep: "\<bar>p - (L2 - q)\<bar> \<le> 4 * u" unfolding p_def L2_def[symmetric] by (rule err)
    show ?thesis using eq ep A Bp L2 ls l s False u unfolding u_def[symmetric] by linarith
  qed
qed

lemma hslToRgb_range:
  assumes l: "0 \<le> l" "l \<le> 1" and s: "0 \<le> s" "s \<le> 1" and h: "- (1 / 2) \<le> h" "h \<le> 3 / 2"
  shows "(\<exists>n\<le>255. rgb_r (hslToRgb h s l) = real n)
       \<and> (\<exists>n\<le>255. rgb_g (hslToRgb h s l) = real n)
       \<and> (\<exists>n\<le>255. rgb_b (hslToRgb h s l) = real n)"
proof (cases "s = 0")
  case True
  have "\<exists>n\<le>255. Math_round (fl (l * 255)) = real n"
    using l unit_roundoff_pos by (intro Math_round_channel) auto
  then show ?thesis using True by (simp add: hslToRgb_def)
next
  case False
  define u where "u = unit_roundoff"
  have u: "0 < u" "u \<le> 1 / 1000000000000000"
    unfolding u_def by (rule unit_roundoff_pos, rule unit_roundoff_small)
  define q where "q = (if l < 1 / 2 then fl (l * fl (1 + s)) else fl (fl (l + s) - fl (l * s)))"
  define p where "p = fl (fl (2 * l) - q)"
  have pq: "- (16 * u) \<le> q" "q \<le> 1 + 16 * u" "- (16 * u) \<le> p" "p \<le> 1 + 16 * u"
    using chroma_range[OF l s] unfolding q_def p_def u_def by simp_all
  have pq2: "\<bar>p\<bar> \<le> 2" "\<bar>q\<bar> \<le> 2" using pq u by linarith+
  have ch: "\<exists>n\<le>255. Math_round (fl (hue2rgb p q t * 255)) = real n" if "- 1 \<le> t" "t \<le> 2" for t
  proof -
    have "\<bar>hue2rgb p q t - (p + (q - p) * hue_wave t)\<bar> \<le> 300 * u"
      unfolding u_def by (rule hue2rgb_ramp[OF that pq2])
    moreover have "- (16 * u) \<le> p + (q - p) * hue_wave t
        \<and> p + (q - p) * hue_wave t \<le> 1 + 16 * u"
      using hue_wave_range[of t] pq by (intro convex_between) auto
    ultimately have "- (1000 * u) \<le> hue2rgb p q t" "hue2rgb p q t \<le> 1 + 1000 * u"
      using u by linarith+
    then show ?thesis unfolding u_def by (rule Math_round_channel)
  qed
  define c3 :: real where "c3 = 6004799503160661 / 2 ^ 54"
  have c3: "0 \<le> c3" "c3 \<le> 2 / 5" by (simp_all add: c3_def)
  have "\<bar>h + c3\<bar> \<le> 2" "\<bar>h - c3\<bar> \<le> 2" using h c3 by linarith+
  then have "\<bar>fl (h + c3) - (h + c3)\<bar> \<le> 2 * u" "\<bar>fl (h - c3) - (h - c3)\<bar> \<le> 2 * u"
    unfolding u_def by (simp_all add: fl_err)
  then have t: "- 1 \<le> fl (h + c3)" "fl (h + c3) \<le> 2" "- 1 \<le> fl (h - c3)" "fl (h - c3) \<le> 2"
    using h c3 u by linarith+
  have "- 1 \<le> h" "h \<le> 2" using h by linarith+
  note g = ch[OF this]
  have "hslToRgb h s l =
    \<lparr>rgb_r = Math_round (fl (hue2rgb p q (fl (h + c3)) * 255)),
     rgb_g = Math_round (fl (hue2rgb p q h * 255)),
     rgb_b = Math_round (fl (hue2rgb p q (fl (h - c3)) * 255))\<rparr>"
    using False by (simp add: hslToRgb_def Let_def p_def q_def fl_third c3_def)
  then show ?thesis using ch[OF t(1,2)] g ch[OF t(3,4)] by simp
qed

lemma fl_minus_one [simp]: "fl (- 1) = - 1"
  by (simp add: fl_minus)

text \<open>The channels of a pixel, divided by 255: apart by more than a rounding.\<close>

lemma channel_unit:
  assumes "n \<le> 255"
  shows "0 \<le> fl (real n / 255) \<and> fl (real n / 255) \<le> 1"
  using assms by (intro fl_unit) auto

lemma channel_mono:
  assumes "m \<le> n"
  shows "fl (real m / 255) \<le> fl (real n / 255)"
  using assms by (intro fl_mono) (simp add: divide_right_mono)

lemma channel_gap:
  assumes "m < n" "n \<le> 255"
  shows "1 / 256 \<le> fl (real n / 255) - fl (real m / 255)"
proof -
  define u where "u = unit_roundoff"
  have u: "0 < u" "u \<le> 1 / 1000000000000000"
    unfolding u_def by (rule unit_roundoff_pos, rule unit_roundoff_small)
  have "real m + 1 \<le> real n" using assms(1) by linarith
  then have gap: "real m / 255 + 1 / 255 \<le> real n / 255" by (simp add: field_simps)
  have "\<bar>real n / 255\<bar> \<le> 1" "\<bar>real m / 255\<bar> \<le> 1" using assms by simp_all
  then have "\<bar>fl (real n / 255) - real n / 255\<bar> \<le> u" "\<bar>fl (real m / 255) - real m / 255\<bar> \<le> u"
    unfolding u_def by (simp_all add: fl_err)
  then show ?thesis using gap u by linarith
qed

lemma hue_term:
  assumes n: "\<bar>n1\<bar> \<le> D" and d: "1 / 256 \<le> fl D" and c: "0 \<le> c0" "c0 \<le> 6"
  shows "- 1 \<le> fl (fl (fl n1 / fl D) + c0) \<and> fl (fl (fl n1 / fl D) + c0) \<le> 7"
proof -
  have "n1 \<le> D" "- D \<le> n1" using n by linarith+
  then have "fl n1 \<le> fl D" "fl (- D) \<le> fl n1" by (simp_all add: fl_mono)
  then have N: "fl n1 \<le> fl D" "- fl D \<le> fl n1" by (simp_all add: fl_minus)
  have dpos: "0 < fl D" using d by linarith
  have "- 1 \<le> fl n1 / fl D" "fl n1 / fl D \<le> 1"
    using N dpos by (simp_all add: field_simps)
  then have "- 1 \<le> fl (fl n1 / fl D) \<and> fl (fl n1 / fl D) \<le> 1"
    by (intro fl_between) simp_all
  then have "- 1 \<le> fl (fl n1 / fl D) + c0" "fl (fl n1 / fl D) + c0 \<le> 7"
    using c by linarith+
  then show ?thesis by (intro fl_between) (simp_all add: fl_exact)
qed

lemma rgbToHsl_range:
  fixes R G B :: nat
  assumes "R \<le> 255" "G \<le> 255" "B \<le> 255"
  defines "c \<equiv> rgbToHsl (real R) (real G) (real B)"
  shows "0 \<le> hsl_l c \<and> hsl_l c \<le> 1 \<and> - (1 / 2) \<le> hsl_h c \<and> hsl_h c \<le> 3 / 2"
proof -
  define r g b where "r = fl (real R / 255)" and "g = fl (real G / 255)"
    and "b = fl (real B / 255)"
  define mx where "mx = max (max r g) b"
  define mn where "mn = min (min r g) b"
  have unit: "0 \<le> r" "r \<le> 1" "0 \<le> g" "g \<le> 1" "0 \<le> b" "b \<le> 1"
    using channel_unit[OF assms(1)] channel_unit[OF assms(2)] channel_unit[OF assms(3)]
    by (simp_all add: r_def g_def b_def)
  have rng: "0 \<le> mn" "mx \<le> 1" "mn \<le> mx" "0 \<le> mx" "mn \<le> 1"
    using unit by (auto simp: mx_def mn_def)
  have in_rng: "mn \<le> r" "r \<le> mx" "mn \<le> g" "g \<le> mx" "mn \<le> b" "b \<le> mx"
    by (auto simp: mx_def mn_def)
  define l where "l = fl (fl (mx + mn) / 2)"
  have l: "0 \<le> l \<and> l \<le> 1"
  proof -
    have "0 \<le> fl (mx + mn) \<and> fl (mx + mn) \<le> 2"
      using rng by (intro fl_between) (simp_all add: fl_exact)
    then show ?thesis unfolding l_def by (intro fl_unit) auto
  qed
  show ?thesis
  proof (cases "mx = mn")
    case True
    then have "c = \<lparr>hsl_h = 0, hsl_s = 0, hsl_l = l\<rparr>"
      by (simp add: c_def rgbToHsl_def Let_def mx_def mn_def r_def g_def b_def l_def)
    then show ?thesis using l by simp
  next
    case False
    have "mx = r \<or> mx = g \<or> mx = b" by (auto simp: mx_def max_def)
    then obtain X where X: "X \<in> {R, G, B}" "mx = fl (real X / 255)"
      unfolding r_def g_def b_def by blast
    have "mn = r \<or> mn = g \<or> mn = b" by (auto simp: mn_def min_def)
    then obtain Y where Y: "Y \<in> {R, G, B}" "mn = fl (real Y / 255)"
      unfolding r_def g_def b_def by blast
    have "\<not> X \<le> Y"
    proof
      assume "X \<le> Y"
      from channel_mono[OF this] have "mx \<le> mn" by (simp add: X Y)
      then show False using False rng by simp
    qed
    then have "Y < X" by simp
    moreover have "X \<le> 255" using X(1) assms(1-3) by auto
    ultimately have gap: "1 / 256 \<le> mx - mn"
      unfolding X(2) Y(2) by (rule channel_gap)
    define d where "d = fl (mx - mn)"
    have d: "1 / 256 \<le> d"
      unfolding d_def using fl_mono[OF gap] by (simp add: fl_exact)
    define h6 where "h6 = (if mx = r then fl (fl (fl (g - b) / d) + (if g < b then 6 else 0))
                     else if mx = g then fl (fl (fl (b - r) / d) + 2)
                     else if mx = b then fl (fl (fl (r - g) / d) + 4)
                     else 0)"
    have t: "- 1 \<le> fl (fl (fl n1 / d) + c0) \<and> fl (fl (fl n1 / d) + c0) \<le> 7"
      if "\<bar>n1\<bar> \<le> mx - mn" "0 \<le> c0" "c0 \<le> 6" for n1 c0
      unfolding d_def using that(1) d[unfolded d_def] that(2,3) by (rule hue_term)
    have "\<bar>g - b\<bar> \<le> mx - mn" "\<bar>b - r\<bar> \<le> mx - mn" "\<bar>r - g\<bar> \<le> mx - mn"
      using in_rng by linarith+
    then have "- 1 \<le> h6 \<and> h6 \<le> 7"
      unfolding h6_def using t[of "g - b" 6] t[of "g - b" 0] t[of "b - r" 2] t[of "r - g" 4]
      by auto
    then have "- (1 / 2) \<le> h6 / 6" "h6 / 6 \<le> 3 / 2" by simp_all
    then have h: "- (1 / 2) \<le> fl (h6 / 6) \<and> fl (h6 / 6) \<le> 3 / 2"
      by (intro fl_between) (simp_all add: fl_exact fl_minus)
    have "hsl_h c = fl (h6 / 6)" "hsl_l c = l"
      using False
      by (simp_all add: c_def rgbToHsl_def Let_def mx_def mn_def r_def g_def b_def l_def
          d_def h6_def)
    then show ?thesis using h l by simp
  qed
qed

lemma clamp01_range: "0 \<le> clamp01 v \<and> clamp01 v \<le> 1"
  by (simp add: clamp01_def)

lemma byte_nat: "\<exists>n\<le>255. byte d i = real n"
proof -
  have "unat (d ! i) < 2 ^ LENGTH(8)" by (rule unsigned_less)
  then have "unat (d ! i) \<le> 255" by simp
  then show ?thesis unfolding byte_def by blast
qed

text \<open>The boosted colour of a pixel has integer channels in \<open>[0, 255]\<close>.\<close>

lemma saturate_pixel_range:
  assumes "ch < 3"
  shows "\<exists>n\<le>255. channel (saturate_pixel B d p) ch = real n"
proof -
  obtain R G Bl where n: "R \<le> 255" "G \<le> 255" "Bl \<le> 255"
    and b: "byte d (4 * p) = real R" "byte d (4 * p + 1) = real G" "byte d (4 * p + 2) = real Bl"
    using byte_nat[of d "4 * p"] byte_nat[of d "4 * p + 1"] byte_nat[of d "4 * p + 2"] by blast
  define c where "c = rgbToHsl (real R) (real G) (real Bl)"
  have hl: "0 \<le> hsl_l c \<and> hsl_l c \<le> 1 \<and> - (1 / 2) \<le> hsl_h c \<and> hsl_h c \<le> 3 / 2"
    unfolding c_def by (rule rgbToHsl_range[OF n])
  define s2 where "s2 = clamp01 (fl (hsl_s c + fl (B * fl (1 - hsl_s c))))"
  have s2: "0 \<le> s2" "s2 \<le> 1" using clamp01_range[of "fl (hsl_s c + fl (B * fl (1 - hsl_s c)))"]
    by (simp_all add: s2_def)
  have "saturate_pixel B d p = hslToRgb (hsl_h c) s2 (hsl_l c)"
    by (simp only: saturate_pixel_def c_def s2_def Let_def b)
  moreover have "(\<exists>n\<le>255. rgb_r (hslToRgb (hsl_h c) s2 (hsl_l c)) = real n)
       \<and> (\<exists>n\<le>255. rgb_g (hslToRgb (hsl_h c) s2 (hsl_l c)) = real n)
       \<and> (\<exists>n\<le>255. rgb_b (hslToRgb (hsl_h c) s2 (hsl_l c)) = real n)"
    using hl s2 by (intro hslToRgb_range) auto
  ultimately show ?thesis by (simp add: channel_def)
qed

section \<open>Quantization\<close>

lemma round_nearest:
  fixes x :: real and j :: int
  shows "\<bar>x - of_int \<lfloor>x + 1 / 2\<rfloor>\<bar> \<le> \<bar>x - of_int j\<bar>"
proof -
  define k where "k = \<lfloor>x + 1 / 2\<rfloor>"
  have k: "of_int k \<le> x + 1 / 2" "x + 1 / 2 < of_int k + 1"
    unfolding k_def by linarith+
  show ?thesis
  proof (cases "j = k")
    case True
    then show ?thesis by (simp add: k_def)
  next
    case False
    then consider "j \<le> k - 1" | "k + 1 \<le> j" by linarith
    then show ?thesis
    proof cases
      case 1
      then have "real_of_int j \<le> of_int k - 1" by linarith
      then show ?thesis using k unfolding k_def[symmetric] by linarith
    next
      case 2
      then have "real_of_int k + 1 \<le> of_int j" by linarith
      then show ?thesis using k unfolding k_def[symmetric] by linarith
    qed
  qed
qed

text \<open>In exact arithmetic, rounding the quotient by the step gives a nearest level.\<close>

lemma quantize_nearest:
  assumes M: "0 < M" and v: "0 \<le> v" "v \<le> 255"
  defines "k \<equiv> nat \<lfloor>v / (255 / real M) + 1 / 2\<rfloor>"
  shows "nearest_level M v k" and "real k = of_int \<lfloor>v / (255 / real M) + 1 / 2\<rfloor>"
proof -
  define step where "step = 255 / real M"
  have step: "0 < step" using M by (simp add: step_def)
  define x where "x = v / step"
  have x: "0 \<le> x" "x \<le> real M" using v M by (simp_all add: x_def step_def field_simps)
  have k: "k = nat \<lfloor>x + 1 / 2\<rfloor>" by (simp add: k_def x_def step_def)
  have nonneg: "0 \<le> \<lfloor>x + 1 / 2\<rfloor>" using x by simp
  have "\<lfloor>x + 1 / 2\<rfloor> \<le> int M"
  proof -
    have "x + 1 / 2 < real_of_int (int M) + 1" using x by simp
    then show ?thesis by (subst floor_le_iff)
  qed
  then have kM: "k \<le> M" using nonneg by (simp add: k)
  have kr: "real k = of_int \<lfloor>x + 1 / 2\<rfloor>" using nonneg by (simp add: k)
  then show "real k = of_int \<lfloor>v / (255 / real M) + 1 / 2\<rfloor>" by (simp add: x_def step_def)
  have near: "\<bar>v - level M k\<bar> \<le> \<bar>v - level M j\<bar>" for j
  proof -
    have "\<bar>x - real k\<bar> \<le> \<bar>x - real j\<bar>"
      using round_nearest[of x "int j"] by (simp add: kr)
    then have "\<bar>x - real k\<bar> * step \<le> \<bar>x - real j\<bar> * step"
      using step by (intro mult_right_mono) auto
    moreover have "\<bar>x - real i\<bar> * step = \<bar>v - level M i\<bar>" for i
    proof -
      have "\<bar>x - real i\<bar> * step = \<bar>(x - real i) * step\<bar>"
        using step by (simp add: abs_mult)
      also have "(x - real i) * step = v - level M i"
        using step by (simp add: x_def level_def step_def algebra_simps)
      finally show ?thesis .
    qed
    ultimately show ?thesis by simp
  qed
  show "nearest_level M v k"
    using kM near unfolding nearest_level_def by blast
qed

text \<open>
  The exact quotient of an integer channel by the step is never half way between two
  integers: it stays at least \<open>1 / 510\<close> away.
\<close>

lemma quotient_off_tie:
  fixes n M :: nat
  defines "a \<equiv> real n / (255 / real M)"
  shows "of_int \<lfloor>a + 1 / 2\<rfloor> + 1 / 510 \<le> a + 1 / 2
       \<and> a + 1 / 2 \<le> of_int \<lfloor>a + 1 / 2\<rfloor> + 1 - 1 / 510"
proof -
  define N where "N = 2 * n * M + 255"
  have a: "a + 1 / 2 = real N / 510" by (simp add: a_def N_def field_simps)
  have odd: "odd N" by (simp add: N_def)
  have "odd (N mod 510)"
  proof -
    have "even (510::nat)" by simp
    then show ?thesis using odd by (metis dvd_mod_iff)
  qed
  then have m: "1 \<le> N mod 510" "N mod 510 \<le> 509"
  proof -
    assume o: "odd (N mod 510)"
    then show "1 \<le> N mod 510" by (cases "N mod 510") auto
    have "N mod 510 < 510" by simp
    moreover have "N mod 510 \<noteq> 509 + 1" using o by auto
    ultimately show "N mod 510 \<le> 509" by linarith
  qed
  have fl: "\<lfloor>real N / 510\<rfloor> = int (N div 510)"
    using floor_divide_of_nat_eq[of N 510] by simp
  have "N = 510 * (N div 510) + N mod 510" by simp
  then have "real N = 510 * real (N div 510) + real (N mod 510)"
    by (metis of_nat_add of_nat_mult of_nat_numeral)
  then have "real N / 510 = real (N div 510) + real (N mod 510) / 510" by simp
  moreover have "1 / 510 \<le> real (N mod 510) / 510" "real (N mod 510) / 510 \<le> 1 - 1 / 510"
    using m by simp_all
  ultimately show ?thesis unfolding a fl by simp
qed

lemma step_close:
  fixes M :: nat
  assumes "2 \<le> M" "M \<le> 2 ^ 32"
  defines "\<sigma> \<equiv> 255 / real M"
  shows "\<bar>fl \<sigma> - \<sigma>\<bar> \<le> \<sigma> * unit_roundoff" and "0 < \<sigma>" and "\<sigma> / 2 \<le> fl \<sigma>"
proof -
  have "real M \<le> real (2 ^ 32)" using assms(2) by (rule of_nat_mono)
  then have M: "0 < real M" "real M \<le> 4294967296" using assms(1) by simp_all
  show pos: "0 < \<sigma>" using M by (simp add: \<sigma>_def)
  have "255 / 4294967296 \<le> \<sigma>" unfolding \<sigma>_def using M by (simp add: field_simps)
  moreover have "(1::real) / 2 ^ 1022 \<le> 255 / 4294967296" by simp
  ultimately have "1 / 2 ^ 1022 \<le> \<bar>\<sigma>\<bar>" by linarith
  from fl_rel[OF this] show e: "\<bar>fl \<sigma> - \<sigma>\<bar> \<le> \<sigma> * unit_roundoff"
    using pos by (simp add: unit_roundoff_def)
  have "\<sigma> * unit_roundoff \<le> \<sigma> * (1 / 2)"
    using pos by (intro mult_left_mono) (simp_all add: unit_roundoff_def)
  then show "\<sigma> / 2 \<le> fl \<sigma>" using e by linarith
qed

text \<open>
  With the rounded step and the rounded quotient the program still picks that level, as
  long as there are at most \<open>2 ^ 32\<close> steps.
\<close>

lemma quantize_fl:
  fixes n M :: nat
  assumes n: "n \<le> 255" and M: "2 \<le> M" "M \<le> 2 ^ 32"
  defines "k \<equiv> nat \<lfloor>real n / (255 / real M) + 1 / 2\<rfloor>"
  shows "Math_round (fl (real n / fl (255 / real M))) = real k"
    and "nearest_level M (real n) k"
proof -
  define \<sigma> where "\<sigma> = 255 / real M"
  define step where "step = fl \<sigma>"
  define u where "u = unit_roundoff"
  have u: "0 < u" "u = 1 / 9007199254740992" by (simp_all add: u_def unit_roundoff_def)
  have st: "\<bar>step - \<sigma>\<bar> \<le> \<sigma> * u" "0 < \<sigma>" "\<sigma> / 2 \<le> step"
    unfolding step_def \<sigma>_def u_def by (rule step_close[OF M])+
  have step_pos: "0 < step" using st by linarith
  have "real M \<le> real (2 ^ 32)" using M(2) by (rule of_nat_mono)
  then have Mr: "2 \<le> real M" "real M \<le> 4294967296" using M(1) by simp_all
  define a where "a = real n / \<sigma>"
  have a: "0 \<le> a" "a \<le> 4294967296"
  proof -
    show "0 \<le> a" using st by (simp add: a_def)
    have "a = real n * real M / 255" using Mr by (simp add: a_def \<sigma>_def)
    also have "\<dots> \<le> 255 * real M / 255"
      using n by (intro divide_right_mono mult_right_mono) auto
    finally show "a \<le> 4294967296" using Mr by simp
  qed
  have kk: "k = nat \<lfloor>a + 1 / 2\<rfloor>" by (simp add: k_def a_def \<sigma>_def)
  have near: "nearest_level M (real n) k" and kr: "real k = of_int \<lfloor>a + 1 / 2\<rfloor>"
    unfolding k_def a_def \<sigma>_def using quantize_nearest[of M "real n"] M(1) n by simp_all
  show "nearest_level M (real n) k" by (rule near)
  define a' where "a' = real n / step"
  define r where "r = (\<sigma> - step) / step"
  have r: "\<bar>r\<bar> \<le> 2 * u"
  proof -
    have "\<sigma> * u \<le> (2 * step) * u" using st u by (intro mult_right_mono) auto
    moreover have "(2 * step) * u = 2 * u * step" by simp
    moreover have "\<bar>\<sigma> - step\<bar> = \<bar>step - \<sigma>\<bar>" by (rule abs_minus_commute)
    ultimately have "\<bar>\<sigma> - step\<bar> \<le> 2 * u * step" using st(1) by linarith
    then have "\<bar>\<sigma> - step\<bar> / step \<le> 2 * u" using step_pos by (simp add: field_simps)
    then show ?thesis using step_pos by (simp add: r_def)
  qed
  have "a' - a = a * r"
    using step_pos st(2) by (simp add: a'_def a_def r_def field_simps)
  moreover have "\<bar>a * r\<bar> \<le> 4294967296 * (2 * u)" using a r by (intro abs_mult_le) auto
  ultimately have d1: "\<bar>a' - a\<bar> \<le> 1 / 1048576" by (simp add: u(2))
  have fa: "\<bar>fl a' - a'\<bar> \<le> 1 / 1048576"
  proof (cases "n = 0")
    case True
    then show ?thesis by (simp add: a'_def)
  next
    case False
    then have "1 \<le> real n" by simp
    moreover have "step \<le> 256" using st(1) Mr u
    proof -
      have "\<sigma> \<le> 255 / 2" unfolding \<sigma>_def using Mr by (simp add: field_simps)
      moreover have "\<sigma> * u \<le> \<sigma> * 1" using st(2) u by (intro mult_left_mono) auto
      ultimately show ?thesis using st(1) by linarith
    qed
    ultimately have "1 / 256 \<le> a'"
      unfolding a'_def using step_pos by (simp add: field_simps)
    moreover have "(1::real) / 2 ^ 1022 \<le> 1 / 256" by simp
    ultimately have "1 / 2 ^ 1022 \<le> \<bar>a'\<bar>" by linarith
    from fl_rel[OF this] have "\<bar>fl a' - a'\<bar> \<le> \<bar>a'\<bar> / 9007199254740992" by simp
    moreover have "\<bar>a'\<bar> \<le> 4294967297" using d1 a by linarith
    ultimately show ?thesis by linarith
  qed
  have tie: "of_int \<lfloor>a + 1 / 2\<rfloor> + 1 / 510 \<le> a + 1 / 2"
    "a + 1 / 2 \<le> of_int \<lfloor>a + 1 / 2\<rfloor> + 1 - 1 / 510"
    unfolding a_def \<sigma>_def using quotient_off_tie[of n M] by simp_all
  have "\<lfloor>fl a' + 1 / 2\<rfloor> = \<lfloor>a + 1 / 2\<rfloor>"
    using tie d1 fa by (intro floor_unique) linarith+
  then show "Math_round (fl (real n / fl (255 / real M))) = real k"
    unfolding Math_round_def kr a'_def step_def \<sigma>_def by simp
qed

section \<open>Round trip of the colour conversions in binary64\<close>

lemma div_close:
  fixes x y x' y' :: real
  assumes x: "\<bar>x' - x\<bar> \<le> a" and y: "\<bar>y' - y\<bar> \<le> b" and xy: "\<bar>x\<bar> \<le> y" and c: "0 < c" "c \<le> y'"
    and y0: "0 < y"
  shows "\<bar>x' / y' - x / y\<bar> \<le> (a + b) / c"
proof -
  define \<rho> where "\<rho> = x / y"
  have \<rho>: "\<bar>\<rho>\<bar> \<le> 1" using xy y0 by (simp add: \<rho>_def field_simps)
  have y': "0 < y'" using c by linarith
  have "x' / y' - x / y = ((x' - x) + \<rho> * (y - y')) / y'"
    using y0 y' by (simp add: \<rho>_def field_simps)
  moreover have "\<bar>\<rho> * (y - y')\<bar> \<le> 1 * b"
    using \<rho> y by (intro abs_mult_le) (auto simp: abs_minus_commute)
  then have "\<bar>(x' - x) + \<rho> * (y - y')\<bar> \<le> a + b" using x by linarith
  then have "\<bar>((x' - x) + \<rho> * (y - y')) / y'\<bar> \<le> (a + b) / y'"
    using y' by (simp add: divide_right_mono)
  moreover have "(a + b) / y' \<le> (a + b) / c"
  proof -
    have "0 \<le> a + b" using x y by linarith
    then show ?thesis using c by (intro divide_left_mono) auto
  qed
  ultimately show ?thesis by linarith
qed

text \<open>The chroma pair \<open>(p, q)\<close> of the program, against the exact one.\<close>

lemma chroma_close:
  fixes l s l' s' :: real
  assumes l: "0 \<le> l" "l \<le> 1" and s: "0 \<le> s" "s \<le> 1"
    and dl: "\<bar>l' - l\<bar> \<le> 5 * unit_roundoff" and ds: "\<bar>s' - s\<bar> \<le> 5000 * unit_roundoff"
  defines "q \<equiv> (if l < 1 / 2 then l * (1 + s) else l + s - l * s)"
  defines "q' \<equiv> (if l' < 1 / 2 then fl (l' * fl (1 + s')) else fl (fl (l' + s') - fl (l' * s')))"
  shows "\<bar>q' - q\<bar> \<le> 5100 * unit_roundoff"
    and "\<bar>fl (fl (2 * l') - q') - (2 * l - q)\<bar> \<le> 5200 * unit_roundoff"
proof -
  define u where "u = unit_roundoff"
  have u: "0 < u" "u \<le> 1 / 1000000000000000"
    unfolding u_def by (rule unit_roundoff_pos, rule unit_roundoff_small)
  note err = fl_err[folded u_def]
  note dl = dl[folded u_def] and ds = ds[folded u_def]
  have l': "\<bar>l'\<bar> \<le> 2" and s': "\<bar>s'\<bar> \<le> 2" using l s dl ds u by linarith+
  text \<open>the two formulas at the rounded arguments, against the formulas at the exact ones\<close>
  define e1 where "e1 = (l' - l) * (1 + s')"
  define e2 where "e2 = l * (s' - s)"
  define e3 where "e3 = (l' - l) * (1 - s')"
  define e4 where "e4 = (s' - s) * (1 - l)"
  have e1: "\<bar>e1\<bar> \<le> 5 * u * 3" unfolding e1_def using dl s' u by (intro abs_mult_le) linarith+
  have e2: "\<bar>e2\<bar> \<le> 1 * (5000 * u)" unfolding e2_def using ds l by (intro abs_mult_le) linarith+
  have e3: "\<bar>e3\<bar> \<le> 5 * u * 3" unfolding e3_def using dl s' u by (intro abs_mult_le) linarith+
  have e4: "\<bar>e4\<bar> \<le> 5000 * u * 1" unfolding e4_def using ds l by (intro abs_mult_le) linarith+
  have f1: "l' * (1 + s') - l * (1 + s) = e1 + e2" by (simp add: e1_def e2_def algebra_simps)
  have f2: "(l' + s' - l' * s') - (l + s - l * s) = e3 + e4"
    by (simp add: e3_def e4_def algebra_simps)
  text \<open>the two exact formulas agree near \<open>l = 1/2\<close>\<close>
  define g where "g = s * (2 * l - 1)"
  have g: "l * (1 + s) - (l + s - l * s) = g" by (simp add: g_def algebra_simps)
  have gb: "\<bar>g\<bar> \<le> 1 * (10 * u)" if "\<bar>2 * l - 1\<bar> \<le> 10 * u"
    unfolding g_def using s that by (intro abs_mult_le) linarith+
  have q: "\<bar>q' - q\<bar> \<le> 5100 * u"
  proof (cases "l' < 1 / 2")
    case True
    define a where "a = fl (1 + s')"
    have "\<bar>1 + s'\<bar> \<le> 4" using s' u by linarith
    then have ea: "\<bar>a - (1 + s')\<bar> \<le> 4 * u" unfolding a_def by (rule err)
    then have a: "\<bar>a\<bar> \<le> 4" using s' u by linarith
    define e5 where "e5 = l' * (a - (1 + s'))"
    have e5: "\<bar>e5\<bar> \<le> 2 * (4 * u)" unfolding e5_def using l' ea by (rule abs_mult_le)
    then have e5': "\<bar>e5\<bar> \<le> 8 * u" by linarith
    have la: "l' * a = l' * (1 + s') + e5" by (simp add: e5_def algebra_simps)
    have "\<bar>l' * a\<bar> \<le> 2 * 4" using l' a by (rule abs_mult_le)
    then have "\<bar>l' * a\<bar> \<le> 8" by simp
    then have eq: "\<bar>fl (l' * a) - l' * a\<bar> \<le> 8 * u" by (rule err)
    have q': "q' = fl (l' * a)" using True by (simp add: q'_def a_def)
    have main: "\<bar>q' - l * (1 + s)\<bar> \<le> 5040 * u"
      unfolding q' using eq la f1 e1 e2 e5' by linarith
    show ?thesis
    proof (cases "l < 1 / 2")
      case True
      then show ?thesis using main u by (simp add: q_def)
    next
      case False
      then have "\<bar>2 * l - 1\<bar> \<le> 10 * u" using \<open>l' < 1 / 2\<close> dl by linarith
      from gb[OF this] show ?thesis using main g False u by (simp add: q_def)
    qed
  next
    case False
    define A where "A = fl (l' + s')"
    define P where "P = fl (l' * s')"
    have "\<bar>l' + s'\<bar> \<le> 4" using l' s' u by linarith
    then have eA: "\<bar>A - (l' + s')\<bar> \<le> 4 * u" unfolding A_def by (rule err)
    have "\<bar>l' * s'\<bar> \<le> 2 * 2" using l' s' by (rule abs_mult_le)
    then have "\<bar>l' * s'\<bar> \<le> 4" by simp
    then have eP: "\<bar>P - l' * s'\<bar> \<le> 4 * u" unfolding P_def by (rule err)
    have ls: "\<bar>l' * s'\<bar> \<le> 4" by fact
    have "\<bar>A - P\<bar> \<le> 16" using eA eP l' s' ls u by linarith
    then have eq: "\<bar>fl (A - P) - (A - P)\<bar> \<le> 16 * u" by (rule err)
    have q': "q' = fl (A - P)" using False by (simp add: q'_def A_def P_def)
    have main: "\<bar>q' - (l + s - l * s)\<bar> \<le> 5040 * u"
      unfolding q' using eq eA eP f2 e3 e4 by linarith
    show ?thesis
    proof (cases "l < 1 / 2")
      case True
      then have "\<bar>2 * l - 1\<bar> \<le> 10 * u" using \<open>\<not> l' < 1 / 2\<close> dl by linarith
      from gb[OF this] show ?thesis using main g True u by (simp add: q_def)
    next
      case False
      then show ?thesis using main u by (simp add: q_def)
    qed
  qed
  then show "\<bar>q' - q\<bar> \<le> 5100 * unit_roundoff" by (simp add: u_def)
  have qr: "0 \<le> q \<and> q \<le> 1"
  proof -
    have "0 \<le> l * s" using l s by (intro mult_nonneg_nonneg)
    moreover have "l * s \<le> l * 1" using l s by (intro mult_left_mono) auto
    moreover have "l * s \<le> 1 * s" using l s by (intro mult_right_mono) auto
    moreover have "0 \<le> (1 - l) * (1 - s)" using l s by (intro mult_nonneg_nonneg) auto
    then have "l + s - l * s \<le> 1" by (simp add: algebra_simps)
    ultimately show ?thesis unfolding q_def using l s by (auto simp: algebra_simps)
  qed
  define L2 where "L2 = fl (2 * l')"
  have "\<bar>2 * l'\<bar> \<le> 4" using l' u by linarith
  then have e2l: "\<bar>L2 - 2 * l'\<bar> \<le> 4 * u" unfolding L2_def by (rule err)
  have "\<bar>L2 - q'\<bar> \<le> 16" using e2l l' q qr u by linarith
  then have "\<bar>fl (L2 - q') - (L2 - q')\<bar> \<le> 16 * u" by (rule err)
  then have "\<bar>fl (L2 - q') - (2 * l - q)\<bar> \<le> 5200 * u" using e2l q dl by linarith
  then show "\<bar>fl (fl (2 * l') - q') - (2 * l - q)\<bar> \<le> 5200 * unit_roundoff"
    by (simp add: L2_def u_def)
qed

lemma channel_close:
  assumes p: "0 \<le> p" "p \<le> 1" and q: "0 \<le> q" "q \<le> 1"
    and dp: "\<bar>p' - p\<bar> \<le> 5200 * unit_roundoff" and dq: "\<bar>q' - q\<bar> \<le> 5100 * unit_roundoff"
    and dt: "\<bar>t' - t\<bar> \<le> 600 * unit_roundoff"
    and t: "- 1 \<le> t" "t \<le> 2" and t': "- 1 \<le> t'" "t' \<le> 2"
  shows "\<bar>hue2rgb p' q' t' - hue2rgb_real p q t\<bar> \<le> 30000 * unit_roundoff"
proof -
  define u where "u = unit_roundoff"
  have u: "0 < u" "u \<le> 1 / 1000000000000000"
    unfolding u_def by (rule unit_roundoff_pos, rule unit_roundoff_small)
  note dp = dp[folded u_def] and dq = dq[folded u_def] and dt = dt[folded u_def]
  define w where "w = hue_wave t"
  define w' where "w' = hue_wave t'"
  have w: "0 \<le> w" "w \<le> 1" "0 \<le> w'" "w' \<le> 1"
    using hue_wave_range[of t] hue_wave_range[of t'] by (simp_all add: w_def w'_def)
  have dw: "\<bar>w' - w\<bar> \<le> 18 * (600 * u)" unfolding w_def w'_def using dt by (rule hue_wave_lipschitz)
  have pq': "\<bar>p'\<bar> \<le> 2" "\<bar>q'\<bar> \<le> 2" using p q dp dq u by linarith+
  have ramp: "\<bar>hue2rgb p' q' t' - (p' + (q' - p') * w')\<bar> \<le> 300 * u"
    unfolding w'_def u_def by (rule hue2rgb_ramp[OF t' pq'])
  have exact: "hue2rgb_real p q t = p + (q - p) * w"
    unfolding w_def by (rule hue2rgb_real_wave[OF t])
  define e1 where "e1 = (p' - p) * (1 - w')"
  define e2 where "e2 = (q' - q) * w'"
  define e3 where "e3 = (q - p) * (w' - w)"
  have e1: "\<bar>e1\<bar> \<le> 5200 * u * 1" unfolding e1_def using dp w by (intro abs_mult_le) linarith+
  have e2: "\<bar>e2\<bar> \<le> 5100 * u * 1" unfolding e2_def using dq w by (intro abs_mult_le) linarith+
  have e3: "\<bar>e3\<bar> \<le> 1 * (18 * (600 * u))" unfolding e3_def using dw p q
    by (intro abs_mult_le) linarith+
  have "(p' + (q' - p') * w') - (p + (q - p) * w) = e1 + e2 + e3"
    by (simp add: e1_def e2_def e3_def algebra_simps)
  then show ?thesis unfolding exact u_def[symmetric] using ramp e1 e2 e3 by linarith
qed

lemma round_back:
  assumes "\<bar>c - real n / 255\<bar> \<le> 30000 * unit_roundoff" "n \<le> 255"
  shows "Math_round (fl (c * 255)) = real n"
proof -
  define u where "u = unit_roundoff"
  have u: "0 < u" "u \<le> 1 / 1000000000000000"
    unfolding u_def by (rule unit_roundoff_pos, rule unit_roundoff_small)
  have n: "0 \<le> real n" "real n \<le> 255" using assms(2) by simp_all
  have c: "\<bar>c * 255 - real n\<bar> \<le> 255 * (30000 * u)"
    using assms(1) unfolding u_def[symmetric] by (simp add: field_simps)
  then have "\<bar>c * 255\<bar> \<le> 256" using n u by linarith
  then have "\<bar>fl (c * 255) - c * 255\<bar> \<le> 256 * u" unfolding u_def by (rule fl_err)
  then have "\<bar>fl (c * 255) - real n\<bar> < 1 / 2" using c u by linarith
  from Math_round_stable[OF this, of n] show ?thesis by simp
qed

lemma channel_less_iff:
  assumes "X \<le> 255" "Y \<le> 255"
  shows "fl (real X / 255) < fl (real Y / 255) \<longleftrightarrow> X < Y"
proof
  assume "X < Y"
  from channel_gap[OF this assms(2)] show "fl (real X / 255) < fl (real Y / 255)" by linarith
next
  assume lt: "fl (real X / 255) < fl (real Y / 255)"
  show "X < Y"
  proof (rule ccontr)
    assume "\<not> X < Y"
    then have "Y \<le> X" by simp
    from channel_mono[OF this] show False using lt by linarith
  qed
qed

lemma channel_le_iff:
  assumes "X \<le> 255" "Y \<le> 255"
  shows "fl (real X / 255) \<le> fl (real Y / 255) \<longleftrightarrow> X \<le> Y"
  using channel_less_iff[OF assms(2,1)] by (auto simp: not_less[symmetric])

lemma channel_eq_iff:
  assumes "X \<le> 255" "Y \<le> 255"
  shows "fl (real X / 255) = fl (real Y / 255) \<longleftrightarrow> X = Y"
  using channel_le_iff[OF assms] channel_le_iff[OF assms(2,1)] by (auto simp: eq_iff)

lemma hue_term_close:
  fixes x y x' y' d d' c0 :: real
  assumes x: "\<bar>x' - x\<bar> \<le> unit_roundoff" and y: "\<bar>y' - y\<bar> \<le> unit_roundoff"
    and xy: "\<bar>x - y\<bar> \<le> d" and d: "\<bar>d' - d\<bar> \<le> 6 * unit_roundoff" "1 / 256 \<le> d'" "0 < d"
    and b: "\<bar>x\<bar> \<le> 1" "\<bar>y\<bar> \<le> 1" and c: "0 \<le> c0" "c0 \<le> 6"
  shows "\<bar>fl (fl (fl (fl (x' - y') / d') + c0) / 6) - ((x - y) / d + c0) / 6\<bar>
    \<le> 520 * unit_roundoff"
proof -
  define u where "u = unit_roundoff"
  have u: "0 < u" "u \<le> 1 / 1000000000000000"
    unfolding u_def by (rule unit_roundoff_pos, rule unit_roundoff_small)
  note err = fl_err[folded u_def]
  note x = x[folded u_def] and y = y[folded u_def] and d = d[folded u_def]
  define N where "N = fl (x' - y')"
  have "\<bar>x' - y'\<bar> \<le> 4" using x y b u by linarith
  then have "\<bar>N - (x' - y')\<bar> \<le> 4 * u" unfolding N_def by (rule err)
  then have N: "\<bar>N - (x - y)\<bar> \<le> 6 * u" using x y by linarith
  define \<rho> where "\<rho> = (x - y) / d"
  have \<rho>: "\<bar>\<rho>\<bar> \<le> 1" using xy d(3) by (simp add: \<rho>_def field_simps)
  have "\<bar>N / d' - (x - y) / d\<bar> \<le> (6 * u + 6 * u) / (1 / 256)"
    using N d(1) xy _ d(2,3) by (rule div_close) simp
  then have r1: "\<bar>N / d' - \<rho>\<bar> \<le> 3072 * u" by (simp add: \<rho>_def)
  define \<rho>' where "\<rho>' = fl (N / d')"
  have "\<bar>N / d'\<bar> \<le> 2" using r1 \<rho> u by linarith
  then have "\<bar>\<rho>' - N / d'\<bar> \<le> 2 * u" unfolding \<rho>'_def by (rule err)
  then have r2: "\<bar>\<rho>' - \<rho>\<bar> \<le> 3074 * u" using r1 by linarith
  define h6 where "h6 = fl (\<rho>' + c0)"
  have "\<bar>\<rho>' + c0\<bar> \<le> 8" using r2 \<rho> c u by linarith
  then have "\<bar>h6 - (\<rho>' + c0)\<bar> \<le> 8 * u" unfolding h6_def by (rule err)
  then have r3: "\<bar>h6 - (\<rho> + c0)\<bar> \<le> 3082 * u" using r2 by linarith
  define E where "E = h6 - (\<rho> + c0)"
  define T where "T = (\<rho> + c0) / 6"
  define H where "H = h6 / 6"
  have E: "E \<le> 3082 * u" "- (3082 * u) \<le> E" using r3 unfolding E_def by linarith+
  have "- 1 \<le> \<rho> + c0" "\<rho> + c0 \<le> 7" using \<rho> c by linarith+
  then have T: "- 1 \<le> T" "T \<le> 7 / 6" unfolding T_def by simp_all
  have "H - T = E / 6" unfolding E_def H_def T_def by (rule diff_divide_distrib[symmetric])
  moreover have "E / 6 \<le> 514 * u" "- (514 * u) \<le> E / 6" using E u by linarith+
  ultimately have r4: "\<bar>H - T\<bar> \<le> 514 * u" by linarith
  have "\<bar>H\<bar> \<le> 2" using r4 T u by linarith
  then have "\<bar>fl H - H\<bar> \<le> 2 * u" by (rule err)
  then have "\<bar>fl H - T\<bar> \<le> 520 * u" using r4 u by linarith
  then show ?thesis unfolding H_def T_def h6_def \<rho>'_def N_def \<rho>_def u_def .
qed

lemma channel_max:
  "max (fl (real X / 255)) (fl (real Y / 255)) = fl (real (max X Y) / 255)"
  using channel_mono[of X Y] channel_mono[of Y X] by (cases "X \<le> Y") (auto simp: max_def)

lemma channel_min:
  "min (fl (real X / 255)) (fl (real Y / 255)) = fl (real (min X Y) / 255)"
  using channel_mono[of X Y] channel_mono[of Y X] by (cases "X \<le> Y") (auto simp: min_def)

lemma real_max_div: "max (real X / 255) (real Y / 255) = real (max X Y) / 255"
  by (auto simp: max_def)

lemma real_min_div: "min (real X / 255) (real Y / 255) = real (min X Y) / 255"
  by (auto simp: min_def)

text \<open>
  On a pixel that is not grey, the hue, saturation and lightness that the program
  computes are within a few thousand roundings of the exact ones.
\<close>

lemma rgbToHsl_close:
  fixes R G B :: nat
  assumes n: "R \<le> 255" "G \<le> 255" "B \<le> 255" and chroma: "\<not> (R = G \<and> G = B)"
  defines "c \<equiv> rgbToHsl (real R) (real G) (real B)"
  defines "c0 \<equiv> rgbToHsl_real (real R) (real G) (real B)"
  shows "\<bar>hsl_l c - hsl_l c0\<bar> \<le> 5 * unit_roundoff
       \<and> \<bar>hsl_s c - hsl_s c0\<bar> \<le> 5000 * unit_roundoff
       \<and> \<bar>hsl_h c - hsl_h c0\<bar> \<le> 520 * unit_roundoff
       \<and> hsl_s c \<noteq> 0"
proof -
  define u where "u = unit_roundoff"
  have u: "0 < u" "u \<le> 1 / 1000000000000000"
    unfolding u_def by (rule unit_roundoff_pos, rule unit_roundoff_small)
  note err = fl_err[folded u_def]
  define r g b where "r = real R / 255" and "g = real G / 255" and "b = real B / 255"
  define r' g' b' where "r' = fl r" and "g' = fl g" and "b' = fl b"
  define Mx Mn where "Mx = max (max R G) B" and "Mn = min (min R G) B"
  define mx mn where "mx = max (max r g) b" and "mn = min (min r g) b"
  define mx' mn' where "mx' = max (max r' g') b'" and "mn' = min (min r' g') b'"
  have M: "Mx \<le> 255" "Mn \<le> Mx" "Mn < Mx"
    using n chroma by (auto simp: Mx_def Mn_def)
  have mx: "mx = real Mx / 255" and mn: "mn = real Mn / 255"
    by (simp_all add: mx_def mn_def r_def g_def b_def Mx_def Mn_def real_max_div real_min_div)
  have mx': "mx' = fl (real Mx / 255)" and mn': "mn' = fl (real Mn / 255)"
    by (simp_all add: mx'_def mn'_def r'_def g'_def b'_def r_def g_def b_def Mx_def Mn_def
        channel_max channel_min)
  have unit: "0 \<le> r" "r \<le> 1" "0 \<le> g" "g \<le> 1" "0 \<le> b" "b \<le> 1"
    using n by (simp_all add: r_def g_def b_def)
  have rng: "0 \<le> mn" "mx \<le> 1" "mn \<le> mx" "mn \<le> r" "r \<le> mx" "mn \<le> g" "g \<le> mx"
    "mn \<le> b" "b \<le> mx"
    using unit by (auto simp: mx_def mn_def)
  have e: "\<bar>r' - r\<bar> \<le> u" "\<bar>g' - g\<bar> \<le> u" "\<bar>b' - b\<bar> \<le> u"
    unfolding r'_def g'_def b'_def using unit by (auto intro!: err)
  have emx: "\<bar>mx' - mx\<bar> \<le> u" and emn: "\<bar>mn' - mn\<bar> \<le> u"
    unfolding mx' mn' mx mn using M by (auto intro!: err)
  text \<open>the tests of the program agree with the exact ones\<close>
  have t_ne: "mx' \<noteq> mn'" "mx \<noteq> mn"
    using M channel_eq_iff[of Mx Mn] by (simp_all add: mx' mn' mx mn)
  have t_r: "mx' = r' \<longleftrightarrow> mx = r"
    using M n channel_eq_iff[of Mx R] by (simp add: mx' mx r'_def r_def)
  have t_g: "mx' = g' \<longleftrightarrow> mx = g"
    using M n channel_eq_iff[of Mx G] by (simp add: mx' mx g'_def g_def)
  have t_b: "mx' = b' \<longleftrightarrow> mx = b"
    using M n channel_eq_iff[of Mx B] by (simp add: mx' mx b'_def b_def)
  have t_gb: "g' < b' \<longleftrightarrow> g < b"
    using n channel_less_iff[of G B] by (simp add: g'_def b'_def g_def b_def)
  text \<open>lightness\<close>
  define l where "l = (mx + mn) / 2"
  define l' where "l' = fl (fl (mx' + mn') / 2)"
  define sm where "sm = fl (mx' + mn')"
  have "\<bar>mx' + mn'\<bar> \<le> 4" using emx emn rng u by linarith
  then have esm: "\<bar>sm - (mx' + mn')\<bar> \<le> 4 * u" unfolding sm_def by (rule err)
  define hs where "hs = sm / 2"
  have hs: "2 * hs = sm" and l2: "2 * l = mx + mn" by (simp_all add: hs_def l_def)
  have "\<bar>hs\<bar> \<le> 2" using hs esm emx emn rng u by linarith
  then have "\<bar>fl hs - hs\<bar> \<le> 2 * u" by (rule err)
  moreover have "l' = fl hs" by (simp add: l'_def hs_def sm_def)
  ultimately have el: "\<bar>l' - l\<bar> \<le> 5 * u" using hs l2 esm emx emn by linarith
  text \<open>chroma\<close>
  define d where "d = mx - mn"
  define d' where "d' = fl (mx' - mn')"
  have "real Mn + 1 \<le> real Mx" using M(3) by linarith
  then have d: "1 / 255 \<le> d" "d \<le> 1" using rng by (simp_all add: d_def mx mn field_simps)
  have "\<bar>mx' - mn'\<bar> \<le> 4" using emx emn rng u by linarith
  then have "\<bar>d' - (mx' - mn')\<bar> \<le> 4 * u" unfolding d'_def by (rule err)
  then have ed: "\<bar>d' - d\<bar> \<le> 6 * u" unfolding d_def using emx emn by linarith
  then have d'lo: "1 / 256 \<le> d'" using d u by linarith
  text \<open>saturation\<close>
  define S where "S = Mx + Mn"
  have S: "mx + mn = real S / 255" by (simp add: mx mn S_def add_divide_distrib)
  define m where "m = (if l > 1 / 2 then 2 - mx - mn else mx + mn)"
  define m' where "m' = (if l' > 1 / 2 then fl (fl (2 - mx') - mn') else fl (mx' + mn'))"
  have ma: "\<bar>fl (fl (2 - mx') - mn') - (2 - mx - mn)\<bar> \<le> 10 * u"
  proof -
    define t where "t = fl (2 - mx')"
    have "\<bar>2 - mx'\<bar> \<le> 4" using emx rng u by linarith
    then have et: "\<bar>t - (2 - mx')\<bar> \<le> 4 * u" unfolding t_def by (rule err)
    have "\<bar>t - mn'\<bar> \<le> 4" using et emx emn rng u by linarith
    then have "\<bar>fl (t - mn') - (t - mn')\<bar> \<le> 4 * u" by (rule err)
    then show ?thesis unfolding t_def[symmetric] using et emx emn by linarith
  qed
  have mb: "\<bar>fl (mx' + mn') - (mx + mn)\<bar> \<le> 6 * u"
    using esm emx emn unfolding sm_def by linarith
  have em: "\<bar>m' - m\<bar> \<le> 10 * u"
  proof -
    consider (hi) "l' > 1 / 2" "l > 1 / 2" | (lo) "\<not> l' > 1 / 2" "\<not> l > 1 / 2"
      | (up) "l' > 1 / 2" "\<not> l > 1 / 2" | (down) "\<not> l' > 1 / 2" "l > 1 / 2"
      by blast
    then show ?thesis
    proof cases
      case hi
      then show ?thesis using ma by (simp add: m_def m'_def)
    next
      case lo
      then show ?thesis using mb u by (simp add: m_def m'_def)
    next
      case up
      have "real S / 255 \<le> 1" using up(2) l2 S by linarith
      then have "S \<le> 255" by simp
      moreover have "254 < real S / 255 * 255"
      proof -
        have "1 - 10 * u < real S / 255" using up(1) el l2 S by linarith
        then show ?thesis using u by linarith
      qed
      then have "254 < S" by simp
      ultimately have "S = 255" by linarith
      then have "mx + mn = 1" using S by simp
      then have "m = 2 - mx - mn" using up(2) by (simp add: m_def)
      then show ?thesis using ma up(1) by (simp add: m'_def)
    next
      case down
      have "1 < real S / 255" using down(2) l2 S by linarith
      then have "255 < S" by simp
      then have "256 \<le> real S" by linarith
      then have "256 / 255 \<le> real S / 255" by (simp add: field_simps)
      then have "False" using down(1) el l2 S u by linarith
      then show ?thesis ..
    qed
  qed
  have md: "d \<le> m" unfolding m_def d_def using rng by auto
  then have m: "1 / 255 \<le> m" "0 < m" "m \<le> 2" using d rng by (auto simp: m_def)
  have m'lo: "1 / 256 \<le> m'" using em m u by linarith
  define s where "s = d / m"
  define s' where "s' = fl (d' / m')"
  have s: "1 / 510 \<le> s" "s \<le> 1"
  proof -
    have "d / 2 \<le> d / m" using m d by (intro divide_left_mono) auto
    moreover have "1 / 510 \<le> d / 2" using d by linarith
    ultimately show "1 / 510 \<le> s" unfolding s_def by linarith
    show "s \<le> 1" using md m by (simp add: s_def)
  qed
  have "\<bar>d' / m' - d / m\<bar> \<le> (6 * u + 10 * u) / (1 / 256)"
    using ed em _ _ m'lo m(2) by (rule div_close) (use d md in auto)
  then have es0: "\<bar>d' / m' - s\<bar> \<le> 4096 * u" by (simp add: s_def)
  then have "\<bar>d' / m'\<bar> \<le> 2" using s u by linarith
  then have "\<bar>s' - d' / m'\<bar> \<le> 2 * u" unfolding s'_def by (rule err)
  then have es: "\<bar>s' - s\<bar> \<le> 5000 * u" using es0 u by linarith
  then have s'0: "s' \<noteq> 0" using s u by linarith
  text \<open>hue\<close>
  define h where "h = (if mx = r then (g - b) / d + (if g < b then 6 else 0)
                     else if mx = g then (b - r) / d + 2
                     else if mx = b then (r - g) / d + 4
                     else 0) / 6"
  define h' where "h' = fl ((if mx' = r' then fl (fl (fl (g' - b') / d') + (if g' < b' then 6 else 0))
                     else if mx' = g' then fl (fl (fl (b' - r') / d') + 2)
                     else if mx' = b' then fl (fl (fl (r' - g') / d') + 4)
                     else 0) / 6)"
  have dpos: "0 < d" using d by linarith
  have hterm: "\<bar>fl (fl (fl (fl (x' - y') / d') + c0) / 6) - ((x - y) / d + c0) / 6\<bar> \<le> 520 * u"
    if "\<bar>x' - x\<bar> \<le> u" "\<bar>y' - y\<bar> \<le> u" "mn \<le> x" "x \<le> mx" "mn \<le> y" "y \<le> mx"
      "0 \<le> c0" "c0 \<le> 6" for x y x' y' c0
  proof -
    have "\<bar>x - y\<bar> \<le> d" "\<bar>x\<bar> \<le> 1" "\<bar>y\<bar> \<le> 1" using that rng unfolding d_def by linarith+
    with that(1,2) show ?thesis
      unfolding u_def using ed[unfolded u_def] d'lo dpos that(7,8)
      by (intro hue_term_close) auto
  qed
  have eh: "\<bar>h' - h\<bar> \<le> 520 * u"
  proof -
    consider (red) "mx = r" | (green) "mx \<noteq> r" "mx = g" | (blue) "mx \<noteq> r" "mx \<noteq> g" "mx = b"
      | (none) "mx \<noteq> r" "mx \<noteq> g" "mx \<noteq> b"
      by blast
    then show ?thesis
    proof cases
      case red
      show ?thesis
      proof (cases "g < b")
        case True
        have hh: "h' = fl (fl (fl (fl (g' - b') / d') + 6) / 6)" "h = ((g - b) / d + 6) / 6"
          using red True t_r t_gb by (simp_all add: h'_def h_def)
        show ?thesis unfolding hh by (rule hterm[OF e(2,3) rng(6,7,8,9), of 6]) simp_all
      next
        case False
        have hh: "h' = fl (fl (fl (fl (g' - b') / d') + 0) / 6)" "h = ((g - b) / d + 0) / 6"
          using red False t_r t_gb by (simp_all add: h'_def h_def)
        show ?thesis unfolding hh by (rule hterm[OF e(2,3) rng(6,7,8,9), of 0]) simp_all
      qed
    next
      case green
      have hh: "h' = fl (fl (fl (fl (b' - r') / d') + 2) / 6)" "h = ((b - r) / d + 2) / 6"
        using green t_r t_g by (simp_all add: h'_def h_def)
      show ?thesis unfolding hh by (rule hterm[OF e(3,1) rng(8,9,4,5), of 2]) simp_all
    next
      case blue
      have hh: "h' = fl (fl (fl (fl (r' - g') / d') + 4) / 6)" "h = ((r - g) / d + 4) / 6"
        using blue t_r t_g t_b by (simp_all add: h'_def h_def)
      show ?thesis unfolding hh by (rule hterm[OF e(1,2) rng(4,5,6,7), of 4]) simp_all
    next
      case none
      then have "h' = 0" "h = 0" using t_r t_g t_b by (simp_all add: h'_def h_def)
      then show ?thesis using u by simp
    qed
  qed
  text \<open>the two records\<close>
  have c: "c = \<lparr>hsl_h = h', hsl_s = s', hsl_l = l'\<rparr>"
    using t_ne(1)
    by (simp add: c_def rgbToHsl_def Let_def h'_def s'_def l'_def m'_def d'_def mx'_def mn'_def
        r'_def g'_def b'_def r_def g_def b_def)
  have c0: "c0 = \<lparr>hsl_h = h, hsl_s = s, hsl_l = l\<rparr>"
    using t_ne(2)
    by (simp add: c0_def rgbToHsl_real_def Let_def h_def s_def l_def m_def d_def mx_def mn_def
        r_def g_def b_def)
  show ?thesis unfolding c c0 u_def[symmetric] using el es eh s'0 by simp
qed

text \<open>The exact round trip before the final rounding: the chroma pair and the channels.\<close>

lemma roundtrip_unrounded:
  fixes r g b :: real
  assumes rng: "0 \<le> r" "r \<le> 1" "0 \<le> g" "g \<le> 1" "0 \<le> b" "b \<le> 1"
    and ne: "max (max r g) b \<noteq> min (min r g) b"
  defines "c \<equiv> rgbToHsl_real (r * 255) (g * 255) (b * 255)"
  defines "q \<equiv> (if hsl_l c < 1 / 2 then hsl_l c * (1 + hsl_s c)
                 else hsl_l c + hsl_s c - hsl_l c * hsl_s c)"
  defines "p \<equiv> 2 * hsl_l c - q"
  shows "0 < hsl_s c \<and> hsl_s c \<le> 1 \<and> 0 \<le> hsl_l c \<and> hsl_l c \<le> 1
       \<and> 0 \<le> p \<and> p \<le> 1 \<and> 0 \<le> q \<and> q \<le> 1
       \<and> hue2rgb_real p q (hsl_h c + 1 / 3) = r \<and> hue2rgb_real p q (hsl_h c) = g
       \<and> hue2rgb_real p q (hsl_h c - 1 / 3) = b"
proof -
  define mx where "mx = max (max r g) b"
  define mn where "mn = min (min r g) b"
  define l where "l = (mx + mn) / 2"
  have mn_le: "mn \<le> mx" by (auto simp: mx_def mn_def)
  then have lt: "mn < mx" using ne by (simp add: mx_def mn_def)
  have bounds: "0 \<le> mn" "mx \<le> 1" using rng by (auto simp: mx_def mn_def)
  define d where "d = mx - mn"
  define s where "s = (if l > 1 / 2 then d / (2 - mx - mn) else d / (mx + mn))"
  define h where "h = (if mx = r then (g - b) / d + (if g < b then 6 else 0)
                   else if mx = g then (b - r) / d + 2
                   else if mx = b then (r - g) / d + 4
                   else 0) / 6"
  have c: "c = \<lparr>hsl_h = h, hsl_s = s, hsl_l = l\<rparr>"
    using ne
    by (simp add: c_def rgbToHsl_real_def Let_def mx_def mn_def l_def d_def s_def h_def)
  have spos: "0 < s" and s1: "s \<le> 1"
    and qq: "(if l < 1 / 2 then l * (1 + s) else l + s - l * s) = mx"
    using chroma_sat[OF lt bounds] unfolding s_def l_def d_def by blast+
  have q: "q = mx" using qq by (auto simp: q_def c split: if_splits)
  have "2 * l = mx + mn" unfolding l_def by simp
  then have p: "p = mn" unfolding p_def q by (simp add: c)
  have l: "0 \<le> l" "l \<le> 1" using bounds mn_le unfolding l_def by simp_all
  have dpos: "0 < d" using lt by (simp add: d_def)
  have "mx = r \<or> mx = g \<or> mx = b" by (auto simp: mx_def max_def)
  then consider (red) "mx = r" | (green) "mx \<noteq> r" "mx = g"
    | (blue) "mx \<noteq> r" "mx \<noteq> g" "mx = b"
    by blast
  then have "hue2rgb_real mn mx (h + 1 / 3) = r \<and> hue2rgb_real mn mx h = g \<and>
      hue2rgb_real mn mx (h - 1 / 3) = b"
  proof cases
    case red
    then have le: "g \<le> r" "b \<le> r" by (auto simp: mx_def)
    then have mn': "mn = min g b" by (auto simp: mn_def)
    have d': "d = r - min g b" "0 < d" using dpos red mn' by (auto simp: d_def)
    have hh: "h = ((g - b) / d + (if g < b then 6 else 0)) / 6" using red by (simp add: h_def)
    show ?thesis unfolding hh mn' red by (rule hue_of_red_max[OF le d'])
  next
    case green
    then have le: "r \<le> g" "b \<le> g" by (auto simp: mx_def)
    then have mn': "mn = min r b" by (auto simp: mn_def)
    have d': "d = g - min r b" "0 < d" using dpos green mn' by (auto simp: d_def)
    have hh: "h = ((b - r) / d + 2) / 6" using green by (simp add: h_def)
    show ?thesis unfolding hh mn' green(2) by (rule hue_of_green_max[OF le d'])
  next
    case blue
    then have le: "r \<le> b" "g \<le> b" by (auto simp: mx_def)
    then have mn': "mn = min r g" by (auto simp: mn_def)
    have d': "d = b - min r g" "0 < d" using dpos blue mn' by (auto simp: d_def)
    have hh: "h = ((r - g) / d + 4) / 6" using blue by (simp add: h_def)
    show ?thesis unfolding hh mn' blue(3) by (rule hue_of_blue_max[OF le d'])
  qed
  then show ?thesis
    unfolding p q using spos s1 l bounds mn_le by (simp add: c)
qed

text \<open>
  In binary64 the round trip returns the colour it was given: the channels that the
  program computes are within \<open>30000\<close> roundings of the exact ones, which are the
  channels of the colour divided by 255.
\<close>

lemma roundtrip_fl:
  fixes R G B :: nat
  assumes n: "R \<le> 255" "G \<le> 255" "B \<le> 255"
  defines "c \<equiv> rgbToHsl (real R) (real G) (real B)"
  shows "hslToRgb (hsl_h c) (hsl_s c) (hsl_l c) =
    \<lparr>rgb_r = real R, rgb_g = real G, rgb_b = real B\<rparr>"
proof -
  define u where "u = unit_roundoff"
  have u: "0 < u" "u \<le> 1 / 1000000000000000"
    unfolding u_def by (rule unit_roundoff_pos, rule unit_roundoff_small)
  note err = fl_err[folded u_def]
  show ?thesis
  proof (cases "R = G \<and> G = B")
    case True
    define r' where "r' = fl (real R / 255)"
    define l' where "l' = fl (fl (r' + r') / 2)"
    have r: "0 \<le> real R / 255" "real R / 255 \<le> 1" using n by simp_all
    then have er: "\<bar>r' - real R / 255\<bar> \<le> u" unfolding r'_def by (intro err) auto
    have "\<bar>r' + r'\<bar> \<le> 4" using er r u by linarith
    then have es: "\<bar>fl (r' + r') - (r' + r')\<bar> \<le> 4 * u" by (rule err)
    define hs where "hs = fl (r' + r') / 2"
    have hs: "2 * hs = fl (r' + r')" by (simp add: hs_def)
    have "\<bar>hs\<bar> \<le> 2" using hs es er r u by linarith
    then have "\<bar>fl hs - hs\<bar> \<le> 2 * u" by (rule err)
    then have "\<bar>l' - real R / 255\<bar> \<le> 30000 * u"
      unfolding l'_def hs_def[symmetric] using hs es er u by linarith
    then have rb: "Math_round (fl (l' * 255)) = real R"
      unfolding u_def using n(1) by (rule round_back)
    have "c = \<lparr>hsl_h = 0, hsl_s = 0, hsl_l = l'\<rparr>"
      using True by (simp add: c_def rgbToHsl_def Let_def l'_def r'_def)
    then show ?thesis using True rb by (simp add: hslToRgb_def)
  next
    case False
    define r g b where "r = real R / 255" and "g = real G / 255" and "b = real B / 255"
    have unit: "0 \<le> r" "r \<le> 1" "0 \<le> g" "g \<le> 1" "0 \<le> b" "b \<le> 1"
      using n by (simp_all add: r_def g_def b_def)
    have ne: "max (max r g) b \<noteq> min (min r g) b"
    proof -
      have "max (max r g) b = real (max (max R G) B) / 255"
        "min (min r g) b = real (min (min R G) B) / 255"
        by (simp_all add: r_def g_def b_def real_max_div real_min_div)
      moreover have "max (max R G) B \<noteq> min (min R G) B" using False by auto
      ultimately show ?thesis by simp
    qed
    define c0 where "c0 = rgbToHsl_real (real R) (real G) (real B)"
    have c0: "c0 = rgbToHsl_real (r * 255) (g * 255) (b * 255)"
      by (simp add: c0_def r_def g_def b_def)
    define h s l where "h = hsl_h c0" and "s = hsl_s c0" and "l = hsl_l c0"
    define h' s' l' where "h' = hsl_h c" and "s' = hsl_s c" and "l' = hsl_l c"
    define q where "q = (if l < 1 / 2 then l * (1 + s) else l + s - l * s)"
    define p where "p = 2 * l - q"
    have ex: "0 < s" "s \<le> 1" "0 \<le> l" "l \<le> 1" "0 \<le> p" "p \<le> 1" "0 \<le> q" "q \<le> 1"
      "hue2rgb_real p q (h + 1 / 3) = r" "hue2rgb_real p q h = g"
      "hue2rgb_real p q (h - 1 / 3) = b"
      using roundtrip_unrounded[OF unit ne]
      unfolding c0[symmetric] h_def s_def l_def p_def q_def by blast+
    have close: "\<bar>l' - l\<bar> \<le> 5 * u" "\<bar>s' - s\<bar> \<le> 5000 * u" "\<bar>h' - h\<bar> \<le> 520 * u" "s' \<noteq> 0"
      using rgbToHsl_close[OF n False]
      unfolding c_def[symmetric] c0_def[symmetric] h_def s_def l_def h'_def s'_def l'_def u_def
      by blast+
    have hr: "- (1 / 2) \<le> h'" "h' \<le> 3 / 2"
      using rgbToHsl_range[OF n] unfolding c_def[symmetric] h'_def by blast+
    define q' where "q' = (if l' < 1 / 2 then fl (l' * fl (1 + s'))
                           else fl (fl (l' + s') - fl (l' * s')))"
    define p' where "p' = fl (fl (2 * l') - q')"
    have "0 \<le> s" using ex(1) by linarith
    note cc = chroma_close[OF ex(3,4) this ex(2) close(1,2)[unfolded u_def]]
    have dq: "\<bar>q' - q\<bar> \<le> 5100 * unit_roundoff" unfolding q'_def q_def by (rule cc(1))
    have dp: "\<bar>p' - p\<bar> \<le> 5200 * unit_roundoff"
      unfolding p'_def q'_def p_def q_def by (rule cc(2))
    define c3 :: real where "c3 = 6004799503160661 / 2 ^ 54"
    have c3: "\<bar>c3 - 1 / 3\<bar> \<le> u" by (simp add: c3_def u_def unit_roundoff_def)
    define tr tb where "tr = fl (h' + c3)" and "tb = fl (h' - c3)"
    have "\<bar>h' + c3\<bar> \<le> 2" "\<bar>h' - c3\<bar> \<le> 2" using hr c3 u by linarith+
    then have "\<bar>tr - (h' + c3)\<bar> \<le> 2 * u" "\<bar>tb - (h' - c3)\<bar> \<le> 2 * u"
      unfolding tr_def tb_def by (simp_all add: err)
    then have et: "\<bar>tr - (h + 1 / 3)\<bar> \<le> 600 * u" "\<bar>tb - (h - 1 / 3)\<bar> \<le> 600 * u"
      "\<bar>h' - h\<bar> \<le> 600 * u"
      using close(3) c3 u by linarith+
    have rt: "- 1 \<le> tr" "tr \<le> 2" "- 1 \<le> tb" "tb \<le> 2" "- 1 \<le> h'" "h' \<le> 2"
      "- 1 \<le> h + 1 / 3" "h + 1 / 3 \<le> 2" "- 1 \<le> h - 1 / 3" "h - 1 / 3 \<le> 2" "- 1 \<le> h" "h \<le> 2"
      using et hr close(3) c3 u by linarith+
    have "\<bar>hue2rgb p' q' tr - r\<bar> \<le> 30000 * unit_roundoff"
      using channel_close[OF ex(5,6,7,8) dp dq et(1)[unfolded u_def] rt(7,8,1,2)]
      by (simp add: ex(9))
    then have br: "Math_round (fl (hue2rgb p' q' tr * 255)) = real R"
      unfolding r_def using n(1) by (rule round_back)
    have "\<bar>hue2rgb p' q' h' - g\<bar> \<le> 30000 * unit_roundoff"
      using channel_close[OF ex(5,6,7,8) dp dq et(3)[unfolded u_def] rt(11,12,5,6)]
      by (simp add: ex(10))
    then have bg: "Math_round (fl (hue2rgb p' q' h' * 255)) = real G"
      unfolding g_def using n(2) by (rule round_back)
    have "\<bar>hue2rgb p' q' tb - b\<bar> \<le> 30000 * unit_roundoff"
      using channel_close[OF ex(5,6,7,8) dp dq et(2)[unfolded u_def] rt(9,10,3,4)]
      by (simp add: ex(11))
    then have bb: "Math_round (fl (hue2rgb p' q' tb * 255)) = real B"
      unfolding b_def using n(3) by (rule round_back)
    have "hslToRgb h' s' l' =
      \<lparr>rgb_r = Math_round (fl (hue2rgb p' q' tr * 255)),
       rgb_g = Math_round (fl (hue2rgb p' q' h' * 255)),
       rgb_b = Math_round (fl (hue2rgb p' q' tb * 255))\<rparr>"
      using close(4)
      by (simp add: hslToRgb_def Let_def p'_def q'_def tr_def tb_def fl_third c3_def)
    then have "hslToRgb h' s' l' = \<lparr>rgb_r = real R, rgb_g = real G, rgb_b = real B\<rparr>"
      by (simp only: br bg bb)
    then show ?thesis unfolding h'_def s'_def l'_def .
  qed
qed

lemma achromatic_saturation:
  fixes r g b :: nat
  assumes "max (max r g) b = min (min r g) b"
  shows "hsl_s (rgbToHsl (real r) (real g) (real b)) = 0"
proof -
  have "g = r" "b = r" using assms by (auto simp: max_def min_def split: if_splits)
  then show ?thesis by (simp add: rgbToHsl_def Let_def)
qed

text \<open>
  C1. For every colour with integer channels in \<open>[0, 255]\<close>, converting to HSL with
  \<open>rgbToHsl\<close> and back with \<open>hslToRgb\<close> gives a colour that differs from it by at most 1
  in each channel; when the largest and the smallest channel are equal, \<open>rgbToHsl\<close>
  returns saturation 0.
\<close>

theorem C1_roundtrip_within_one:
  fixes r g b :: nat
  assumes "r \<le> 255" "g \<le> 255" "b \<le> 255"
  defines "c \<equiv> rgbToHsl (real r) (real g) (real b)"
  defines "c' \<equiv> hslToRgb (hsl_h c) (hsl_s c) (hsl_l c)"
  shows "\<bar>rgb_r c' - real r\<bar> \<le> 1 \<and> \<bar>rgb_g c' - real g\<bar> \<le> 1 \<and> \<bar>rgb_b c' - real b\<bar> \<le> 1
    \<and> (max (max r g) b = min (min r g) b \<longrightarrow> hsl_s c = 0)"
proof -
  have "c' = \<lparr>rgb_r = real r, rgb_g = real g, rgb_b = real b\<rparr>"
    unfolding c'_def c_def by (rule roundtrip_fl[OF assms(1-3)])
  moreover have "hsl_s c = 0" if "max (max r g) b = min (min r g) b"
    unfolding c_def using that by (rule achromatic_saturation)
  ultimately show ?thesis by simp
qed

theorem C1_roundtrip_witness:
  "(128::nat) \<le> 255
   \<and> \<bar>rgb_r (hslToRgb (hsl_h (rgbToHsl 128 128 128)) (hsl_s (rgbToHsl 128 128 128))
         (hsl_l (rgbToHsl 128 128 128))) - 128\<bar> \<le> 1
   \<and> max (max (128::nat) 128) 128 = min (min 128 128) 128
   \<and> hsl_s (rgbToHsl 128 128 128) = 0"
proof -
  have h: "(128::nat) \<le> 255" by simp
  have m: "max (max (128::nat) 128) 128 = min (min 128 128) 128" by simp
  note w = C1_roundtrip_within_one[OF h h h, unfolded of_nat_numeral]
  from w m h show ?thesis by blast
qed

section \<open>The posterizer loop\<close>

lemma posterize_loop_unfold:
  assumes "4 * p < length d"
  shows "posterize_loop step B (4 * p) d =
    posterize_loop step B (4 * p + 4)
      (d[4 * p := posterize_channel step (channel (saturate_pixel B d p) 0),
         4 * p + 1 := posterize_channel step (channel (saturate_pixel B d p) 1),
         4 * p + 2 := posterize_channel step (channel (saturate_pixel B d p) 2),
         4 * p + 3 := d ! (4 * p + 3)])"
  using assms
  by (subst posterize_loop.simps) (simp add: saturate_pixel_def channel_def Let_def)

lemma posterize_loop_done:
  assumes "\<not> i < length d"
  shows "posterize_loop step B i d = d"
  using assms by (subst posterize_loop.simps) simp

lemma saturate_pixel_cong:
  assumes "\<And>c. c < 3 \<Longrightarrow> d' ! (4 * p + c) = d ! (4 * p + c)"
  shows "saturate_pixel B d' p = saturate_pixel B d p"
proof -
  have "d' ! (4 * p) = d ! (4 * p)" "d' ! (4 * p + 1) = d ! (4 * p + 1)"
    "d' ! (4 * p + 2) = d ! (4 * p + 2)"
    using assms[of 0] assms[of 1] assms[of 2] by simp_all
  then show ?thesis by (simp add: saturate_pixel_def byte_def)
qed

text \<open>What the loop leaves at byte \<open>c\<close> of pixel \<open>p\<close>.\<close>

lemma posterize_loop_nth:
  assumes "length d = 4 * n" "k \<le> n" "p < n" "c < 4"
  shows "posterize_loop step B (4 * k) d ! (4 * p + c) =
    (if k \<le> p then
       (if c = 3 then d ! (4 * p + 3)
        else posterize_channel step (channel (saturate_pixel B d p) c))
     else d ! (4 * p + c))"
  using assms
proof (induction "n - k" arbitrary: k d)
  case 0
  then have "k = n" by simp
  then show ?case using 0 by (simp add: posterize_loop_done)
next
  case (Suc m)
  then have kn: "k < n" by simp
  define d' where "d' = d[4 * k := posterize_channel step (channel (saturate_pixel B d k) 0),
         4 * k + 1 := posterize_channel step (channel (saturate_pixel B d k) 1),
         4 * k + 2 := posterize_channel step (channel (saturate_pixel B d k) 2),
         4 * k + 3 := d ! (4 * k + 3)]"
  have len: "length d' = 4 * n" using Suc.prems(1) by (simp add: d'_def)
  have "posterize_loop step B (4 * k) d = posterize_loop step B (4 * k + 4) d'"
    unfolding d'_def using kn Suc.prems(1) by (intro posterize_loop_unfold) simp
  then have unfold: "posterize_loop step B (4 * k) d = posterize_loop step B (4 * (k + 1)) d'"
    by (simp add: algebra_simps)
  have other: "d' ! (4 * q + e) = d ! (4 * q + e)" if "q \<noteq> k" "e < 4" for q e
  proof -
    have "4 * q + e \<noteq> 4 * k" "4 * q + e \<noteq> 4 * k + 1" "4 * q + e \<noteq> 4 * k + 2"
      "4 * q + e \<noteq> 4 * k + 3"
      using that by presburger+
    then show ?thesis by (simp add: d'_def)
  qed
  have here: "d' ! (4 * k + e) =
      (if e = 3 then d ! (4 * k + 3)
       else posterize_channel step (channel (saturate_pixel B d k) e))" if "e < 4" for e
  proof -
    have inb: "4 * k + 3 < length d" using kn Suc.prems(1) by simp
    from that have "e = 0 \<or> e = 1 \<or> e = 2 \<or> e = 3" by linarith
    then show ?thesis using inb by (auto simp: d'_def)
  qed
  have IH: "posterize_loop step B (4 * (k + 1)) d' ! (4 * p + c) =
    (if k + 1 \<le> p then
       (if c = 3 then d' ! (4 * p + 3)
        else posterize_channel step (channel (saturate_pixel B d' p) c))
     else d' ! (4 * p + c))"
    using Suc.hyps(2) kn Suc.prems(3,4) by (intro Suc.hyps(1)[OF _ len]) auto
  show ?case
  proof (cases "k + 1 \<le> p")
    case True
    then have pk: "p \<noteq> k" by simp
    have "saturate_pixel B d' p = saturate_pixel B d p"
      by (rule saturate_pixel_cong) (use other[OF pk] in simp)
    moreover have "d' ! (4 * p + 3) = d ! (4 * p + 3)" using other[OF pk, of 3] by simp
    ultimately show ?thesis using True unfold IH by simp
  next
    case False
    show ?thesis
    proof (cases "p = k")
      case True
      then show ?thesis using unfold IH here[OF Suc.prems(4)] by simp
    next
      case neq: False
      then have "p < k" using False by simp
      then show ?thesis using unfold IH False other[OF neq Suc.prems(4)] by simp
    qed
  qed
qed

lemma posterize_loop_length: "length (posterize_loop step B i d) = length d"
proof (induction "length d - i" arbitrary: i d rule: less_induct)
  case less
  show ?case
  proof (cases "i < length d")
    case True
    then show ?thesis
      by (subst posterize_loop.simps) (simp add: Let_def less)
  next
    case False
    then show ?thesis by (subst posterize_loop.simps) simp
  qed
qed

text \<open>The divisor \<open>Math.max(2, levels - 1)\<close> for an integer number of levels.\<close>

lemma levels_fl:
  fixes L :: int
  assumes "L \<le> 2 ^ 32"
  shows "max 2 (fl (of_int L - 1)) = real (nat (max 2 (L - 1)))"
proof (cases "- (2 ^ 53) < L - 1")
  case True
  then have "\<bar>L - 1\<bar> < 2 ^ 53" using assms by simp
  from fl_of_int[OF this] have "fl (of_int L - 1) = of_int (L - 1)" by simp
  then show ?thesis by (simp add: max_def)
next
  case False
  then have "real_of_int L - 1 \<le> 0" by simp
  then have "fl (of_int L - 1) \<le> 0" by (rule fl_nonpos)
  moreover have "max 2 (L - 1) = 2" using False by simp
  ultimately show ?thesis by (simp add: max_def)
qed

lemma posterize_data:
  fixes L :: int
  assumes "r < length \<sigma>" "L \<le> 2 ^ 32"
  shows "data (fst (posterizeAndSaturate \<sigma> r (of_int L) B) ! r)
    = posterize_loop (fl (255 / real (nat (max 2 (L - 1))))) B 0 (data (\<sigma> ! r))"
  using assms(1) by (simp add: posterizeAndSaturate_def Let_def levels_fl[OF assms(2)])

lemma posterized_channel:
  assumes "length d = 4 * n" "p < n" "ch < 3" and M: "2 \<le> M" "M \<le> 2 ^ 32"
  shows "\<exists>k. nearest_level M (channel (saturate_pixel B d p) ch) k
    \<and> posterize_loop (fl (255 / real M)) B 0 d ! (4 * p + ch) = stored_level M k"
proof -
  obtain v where v: "v \<le> 255" "channel (saturate_pixel B d p) ch = real v"
    using saturate_pixel_range[OF assms(3)] by blast
  define k where "k = nat \<lfloor>real v / (255 / real M) + 1 / 2\<rfloor>"
  have q: "Math_round (fl (real v / fl (255 / real M))) = real k" "nearest_level M (real v) k"
    unfolding k_def by (rule quantize_fl[OF v(1) M])+
  have "posterize_loop (fl (255 / real M)) B (4 * 0) d ! (4 * p + ch)
    = posterize_channel (fl (255 / real M)) (channel (saturate_pixel B d p) ch)"
    using assms(2,3) by (subst posterize_loop_nth[OF assms(1)]) auto
  then have "posterize_loop (fl (255 / real M)) B 0 d ! (4 * p + ch) = stored_level M k"
    by (simp add: posterize_channel_def stored_level_def v(2) q(1))
  then show ?thesis using q(2) v(2) by auto
qed

lemma posterized_alpha:
  assumes "length d = 4 * n" "p < n"
  shows "posterize_loop step B 0 d ! (4 * p + 3) = d ! (4 * p + 3)"
proof -
  have "posterize_loop step B (4 * 0) d ! (4 * p + 3) = d ! (4 * p + 3)"
    using assms(2) by (subst posterize_loop_nth[OF assms(1)]) auto
  then show ?thesis by simp
qed

text \<open>
  C2, as the code has it. With \<open>M = max(2, L - 1)\<close>, for an integer \<open>L\<close> of at most
  \<open>2 ^ 32\<close>, \<open>posterizeAndSaturate\<close> replaces each of the three colour channels of every
  pixel (after the saturation boost, as the program computes it) by the nearest of the
  \<open>M + 1\<close> evenly spaced levels \<open>k * 255 / M\<close>, stored as the byte that the program
  computes for level \<open>k\<close>, and leaves alpha as it was; so each channel of the output takes
  at most \<open>M + 1\<close> distinct values. For \<open>L \<ge> 3\<close> these are \<open>L\<close> levels in steps of
  \<open>255 / (L - 1)\<close>.
\<close>

theorem C2_posterize_levels:
  fixes L :: int and B :: real
  assumes "r < length \<sigma>" and "length (data (\<sigma> ! r)) = 4 * n" and "L \<le> 2 ^ 32"
  defines "M \<equiv> nat (max 2 (L - 1))"
  defines "out \<equiv> data (fst (posterizeAndSaturate \<sigma> r (of_int L) B) ! r)"
  shows "length out = 4 * n
    \<and> (\<forall>p<n. out ! (4 * p + 3) = data (\<sigma> ! r) ! (4 * p + 3)
          \<and> (\<forall>ch<3. \<exists>k. nearest_level M (channel (saturate_pixel B (data (\<sigma> ! r)) p) ch) k
                        \<and> out ! (4 * p + ch) = stored_level M k))
    \<and> (\<forall>ch<3. card ((\<lambda>p. out ! (4 * p + ch)) ` {..<n}) \<le> M + 1)
    \<and> (3 \<le> L \<longrightarrow> int M + 1 = L \<and> level M 1 = 255 / (of_int L - 1))"
proof -
  have M: "2 \<le> M" "M \<le> 2 ^ 32"
  proof -
    show "2 \<le> M" by (simp add: M_def)
    have "max 2 (L - 1) \<le> 2 ^ 32" using assms(3) by simp
    then have "nat (max 2 (L - 1)) \<le> nat (2 ^ 32)" by (rule nat_mono)
    then show "M \<le> 2 ^ 32" by (simp add: M_def)
  qed
  have out: "out = posterize_loop (fl (255 / real M)) B 0 (data (\<sigma> ! r))"
    unfolding out_def M_def by (rule posterize_data[OF assms(1,3)])
  have len: "length out = 4 * n" by (simp add: out posterize_loop_length assms(2))
  have px: "out ! (4 * p + 3) = data (\<sigma> ! r) ! (4 * p + 3)
      \<and> (\<forall>ch<3. \<exists>k. nearest_level M (channel (saturate_pixel B (data (\<sigma> ! r)) p) ch) k
                      \<and> out ! (4 * p + ch) = stored_level M k)" if "p < n" for p
    unfolding out
    using posterized_alpha[OF assms(2) that] posterized_channel[OF assms(2) that _ M]
    by blast
  have card: "card ((\<lambda>p. out ! (4 * p + ch)) ` {..<n}) \<le> M + 1" if "ch < 3" for ch
  proof -
    have "(\<lambda>p. out ! (4 * p + ch)) ` {..<n} \<subseteq> stored_level M ` {..M}"
    proof
      fix y assume "y \<in> (\<lambda>p. out ! (4 * p + ch)) ` {..<n}"
      then obtain p where p: "p < n" "y = out ! (4 * p + ch)" by auto
      from px[OF p(1)] that obtain k where
        "nearest_level M (channel (saturate_pixel B (data (\<sigma> ! r)) p) ch) k"
        "out ! (4 * p + ch) = stored_level M k"
        by blast
      then show "y \<in> stored_level M ` {..M}"
        using p(2) by (auto simp: nearest_level_def)
    qed
    then have "card ((\<lambda>p. out ! (4 * p + ch)) ` {..<n}) \<le> card (stored_level M ` {..M})"
      by (intro card_mono) auto
    also have "\<dots> \<le> card {..M}" by (rule card_image_le) simp
    finally show ?thesis by simp
  qed
  have "int M + 1 = L \<and> level M 1 = 255 / (of_int L - 1)" if "3 \<le> L"
  proof -
    from that have m: "int M = L - 1" by (simp add: M_def)
    then have "real M = of_int L - 1" by (metis of_int_1 of_int_diff of_int_of_nat_eq)
    then show ?thesis using m by (simp add: level_def)
  qed
  with len px card show ?thesis by blast
qed


theorem C2_posterize_witness:
  "(0::nat) < length [\<lparr>width = 1, height = 1, data = [10, 10, 10, 255]\<rparr>]
   \<and> length (data ([\<lparr>width = 1, height = 1, data = [10, 10, 10, 255]\<rparr>] ! 0)) = 4 * 1
   \<and> (6::int) \<le> 2 ^ 32
   \<and> (0::nat) < 1 \<and> (0::nat) < 3 \<and> (3::int) \<le> 6
   \<and> length (data (fst (posterizeAndSaturate
         [\<lparr>width = 1, height = 1, data = [10, 10, 10, 255]\<rparr>] 0 (of_int 6) (3 / 10)) ! 0)) = 4 * 1
   \<and> (\<exists>k. nearest_level (nat (max 2 (6 - 1)))
          (channel (saturate_pixel (3 / 10)
             (data ([\<lparr>width = 1, height = 1, data = [10, 10, 10, 255]\<rparr>] ! 0)) 0) 0) k
        \<and> data (fst (posterizeAndSaturate
             [\<lparr>width = 1, height = 1, data = [10, 10, 10, 255]\<rparr>] 0 (of_int 6) (3 / 10)) ! 0)
             ! (4 * 0 + 0) = stored_level (nat (max 2 (6 - 1))) k)
   \<and> card ((\<lambda>p. data (fst (posterizeAndSaturate
             [\<lparr>width = 1, height = 1, data = [10, 10, 10, 255]\<rparr>] 0 (of_int 6) (3 / 10)) ! 0)
             ! (4 * p + 0)) ` {..<1}) \<le> nat (max 2 (6 - 1)) + 1
   \<and> int (nat (max 2 (6 - 1))) + 1 = 6"
proof -
  let ?\<sigma> = "[\<lparr>width = 1, height = 1, data = [10, 10, 10, 255 :: u8]\<rparr>]"
  have h: "(0::nat) < length ?\<sigma>" "length (data (?\<sigma> ! 0)) = 4 * 1" "(6::int) \<le> 2 ^ 32"
    by simp_all
  have g: "(0::nat) < 1" "(0::nat) < 3" "(3::int) \<le> 6" by simp_all
  from C2_posterize_levels[OF h, of "3 / 10"] h g show ?thesis by blast
qed

subsection \<open>Two levels\<close>

text \<open>The roundings that the conversion of a black, a mid-grey and a white pixel meets.\<close>

lemma fl_post_0: "fl (847736400446211 / 36028797018963968) = 847736400446211 / 36028797018963968"
  by (rule fl_num[where k = 58]) (simp_all add: round_even_def)

lemma fl_post_1: "fl (1978051601041159 / 72057594037927936) = 1978051601041159 / 72057594037927936"
  by (rule fl_num[where k = 58]) (simp_all add: round_even_def)

lemma fl_post_2: "fl (1412894000743685 / 36028797018963968) = 1412894000743685 / 36028797018963968"
  by (rule fl_num[where k = 57]) (simp_all add: round_even_def)

lemma fl_post_3: "fl (2 / 51) = 1412894000743685 / 36028797018963968"
  by (rule fl_num[where k = 57]) (simp_all add: round_even_def)

lemma fl_post_4: "fl (8272041563842250066175335661825 / 162259276829213363391578010288128) = 3673524401933581 / 72057594037927936"
  by (rule fl_num[where k = 57]) (simp_all add: round_even_def)

lemma fl_post_5: "fl (1412894000743685 / 18014398509481984) = 1412894000743685 / 18014398509481984"
  by (rule fl_num[where k = 56]) (simp_all add: round_even_def)

lemma fl_post_6: "fl (7 / 51) = 2472564501301449 / 18014398509481984"
  by (rule fl_num[where k = 55]) (simp_all add: round_even_def)

lemma fl_post_7: "fl (2543209201338633 / 18014398509481984) = 2543209201338633 / 18014398509481984"
  by (rule fl_num[where k = 55]) (simp_all add: round_even_def)

lemma fl_post_8: "fl (1 / 6) = 6004799503160661 / 36028797018963968"
  by (rule fl_num[where k = 55]) (simp_all add: round_even_def)

lemma fl_post_9: "fl (13 / 51) = 286994093901061 / 1125899906842624"
  by (rule fl_num[where k = 54]) (simp_all add: round_even_def)

lemma fl_post_10: "fl (5404319552844595 / 18014398509481984) = 5404319552844595 / 18014398509481984"
  by (rule fl_num[where k = 54]) (simp_all add: round_even_def)

lemma fl_post_11: "fl (3 / 10) = 5404319552844595 / 18014398509481984"
  by (rule fl_num[where k = 54]) (simp_all add: round_even_def)

lemma fl_post_12: "fl (6004799503160661 / 18014398509481984) = 6004799503160661 / 18014398509481984"
  by (rule fl_num[where k = 54]) (simp_all add: round_even_def)

lemma fl_post_13: "fl (1 / 3) = 6004799503160661 / 18014398509481984"
  by (rule fl_num[where k = 54]) (simp_all add: round_even_def)

lemma fl_post_14: "fl (282578800148737 / 562949953421312) = 282578800148737 / 562949953421312"
  by (rule fl_num[where k = 53]) (simp_all add: round_even_def)

lemma fl_post_15: "fl (128 / 255) = 282578800148737 / 562949953421312"
  by (rule fl_num[where k = 53]) (simp_all add: round_even_def)

lemma fl_post_16: "fl (2 / 3) = 6004799503160661 / 9007199254740992"
  by (rule fl_num[where k = 53]) (simp_all add: round_even_def)

lemma fl_post_17: "fl (12009599006321323 / 18014398509481984) = 3002399751580331 / 4503599627370496"
  by (rule fl_num[where k = 53]) (simp_all add: round_even_def)

lemma fl_post_18: "fl (1) = 1"
  by (rule fl_num[where k = 52]) (simp_all add: round_even_def)

lemma fl_post_19: "fl (282578800148737 / 281474976710656) = 282578800148737 / 281474976710656"
  by (rule fl_num[where k = 52]) (simp_all add: round_even_def)

lemma fl_post_20: "fl (256 / 255) = 282578800148737 / 281474976710656"
  by (rule fl_num[where k = 52]) (simp_all add: round_even_def)

lemma fl_post_21: "fl (23418718062326579 / 18014398509481984) = 5854679515581645 / 4503599627370496"
  by (rule fl_num[where k = 52]) (simp_all add: round_even_def)

lemma fl_post_22: "fl (2) = 2"
  by (rule fl_num[where k = 51]) (simp_all add: round_even_def)

lemma fl_post_23: "fl (5) = 5"
  by (rule fl_num[where k = 50]) (simp_all add: round_even_def)

lemma fl_post_24: "fl (504403158265495545 / 72057594037927936) = 7"
  by (rule fl_num[where k = 50]) (simp_all add: round_even_def)

lemma fl_post_25: "fl (936748722493063155 / 72057594037927936) = 13"
  by (rule fl_num[where k = 49]) (simp_all add: round_even_def)

lemma fl_post_26: "fl (51) = 51"
  by (rule fl_num[where k = 47]) (simp_all add: round_even_def)

lemma fl_post_27: "fl (255 / 2) = 255 / 2"
  by (rule fl_num[where k = 46]) (simp_all add: round_even_def)

lemma fl_post_28: "fl (72057594037927935 / 562949953421312) = 128"
  by (rule fl_num[where k = 46]) (simp_all add: round_even_def)

lemma fl_post_29: "fl (255) = 255"
  by (rule fl_num[where k = 45]) (simp_all add: round_even_def)

lemmas fl_post = fl_post_0 fl_post_1 fl_post_2 fl_post_3 fl_post_4 fl_post_5 fl_post_6 fl_post_7 fl_post_8 fl_post_9 fl_post_10 fl_post_11 fl_post_12 fl_post_13 fl_post_14 fl_post_15 fl_post_16 fl_post_17 fl_post_18 fl_post_19 fl_post_20 fl_post_21 fl_post_22 fl_post_23 fl_post_24 fl_post_25 fl_post_26 fl_post_27 fl_post_28 fl_post_29

text \<open>
  The claim as stated fails for \<open>L = 2\<close>: the step is then \<open>255 / max(2, 1) = 127.5\<close>, and on
  a row of a black, a mid-grey and a white pixel (no boost) the red channel of the output
  takes the three values 0, 128 and 255, one more than \<open>L\<close>.
\<close>

theorem C2_posterize_counterexample:
  "data (fst (posterizeAndSaturate
      [\<lparr>width = 3, height = 1,
        data = [0, 0, 0, 255, 128, 128, 128, 255, 255, 255, 255, 255]\<rparr>] 0 2 0) ! 0) ! 0 = 0
   \<and> data (fst (posterizeAndSaturate
      [\<lparr>width = 3, height = 1,
        data = [0, 0, 0, 255, 128, 128, 128, 255, 255, 255, 255, 255]\<rparr>] 0 2 0) ! 0) ! 4 = 128
   \<and> data (fst (posterizeAndSaturate
      [\<lparr>width = 3, height = 1,
        data = [0, 0, 0, 255, 128, 128, 128, 255, 255, 255, 255, 255]\<rparr>] 0 2 0) ! 0) ! 8 = 255
   \<and> \<not> card {0, 128, 255 :: u8} \<le> 2"
proof -
  define d :: "u8 list" where "d = [0, 0, 0, 255, 128, 128, 128, 255, 255, 255, 255, 255]"
  define out where "out = posterize_loop (255 / 2) 0 (4 * 0) d"
  have len: "length d = 4 * 3" by (simp add: d_def)
  have red: "out ! (4 * p + 0) = posterize_channel (255 / 2) (channel (saturate_pixel 0 d p) 0)"
    if "p < 3" for p
    unfolding out_def using that by (subst posterize_loop_nth[OF len]) auto
  have sat: "channel (saturate_pixel 0 d 0) 0 = 0" "channel (saturate_pixel 0 d (Suc 0)) 0 = 128"
    "channel (saturate_pixel 0 d 2) 0 = 255"
    by (simp_all add: saturate_pixel_def channel_def d_def byte_def rgbToHsl_def hslToRgb_def
        clamp01_def Math_round_def Let_def fl_post)
  have q: "posterize_channel (255 / 2) 0 = 0" "posterize_channel (255 / 2) 128 = 128"
    "posterize_channel (255 / 2) 255 = 255"
    by (simp_all add: posterize_channel_def Math_round_def ToUint8Clamp_def fl_post)
  have vals: "out ! 0 = 0" "out ! 4 = 128" "out ! 8 = 255"
    using red[of 0] red[of 1] red[of 2] by (simp_all add: sat q)
  have "data (fst (posterizeAndSaturate [\<lparr>width = 3, height = 1, data = d\<rparr>] 0 2 0) ! 0)
      = out"
    by (simp add: posterizeAndSaturate_def out_def fl_post)
  then show ?thesis using vals unfolding d_def by simp
qed

subsection \<open>Where the roundings show\<close>

lemma fl_probe_0: "fl (900719925474099 / 9007199254740992) = 900719925474099 / 9007199254740992"
  by (rule fl_num[where k = 56]) (simp_all add: round_even_def)

lemma fl_probe_1: "fl (1 / 5) = 3602879701896397 / 18014398509481984"
  by (rule fl_num[where k = 55]) (simp_all add: round_even_def)

lemma fl_probe_2: "fl (3602879701896397 / 18014398509481984) = 3602879701896397 / 18014398509481984"
  by (rule fl_num[where k = 55]) (simp_all add: round_even_def)

lemma fl_probe_3: "fl (1801439850948199 / 9007199254740992) = 1801439850948199 / 9007199254740992"
  by (rule fl_num[where k = 55]) (simp_all add: round_even_def)

lemma fl_probe_4: "fl (10808639105689191 / 36028797018963968) = 1351079888211149 / 4503599627370496"
  by (rule fl_num[where k = 54]) (simp_all add: round_even_def)

lemma fl_probe_5: "fl (3602879701896397 / 9007199254740992) = 3602879701896397 / 9007199254740992"
  by (rule fl_num[where k = 54]) (simp_all add: round_even_def)

lemma fl_probe_6: "fl (25 / 51) = 8830587504648031 / 18014398509481984"
  by (rule fl_num[where k = 54]) (simp_all add: round_even_def)

lemma fl_probe_7: "fl (1 / 2) = 1 / 2"
  by (rule fl_num[where k = 53]) (simp_all add: round_even_def)

lemma fl_probe_8: "fl (5404319552844597 / 4503599627370496) = 5404319552844597 / 4503599627370496"
  by (rule fl_num[where k = 52]) (simp_all add: round_even_def)

lemma fl_probe_9: "fl (3 / 2) = 3 / 2"
  by (rule fl_num[where k = 52]) (simp_all add: round_even_def)

lemma fl_probe_10: "fl (77 / 51) = 849944047322373 / 562949953421312"
  by (rule fl_num[where k = 52]) (simp_all add: round_even_def)

lemma fl_probe_11: "fl (51 / 10) = 2871044762448691 / 562949953421312"
  by (rule fl_num[where k = 50]) (simp_all add: round_even_def)

lemma fl_probe_12: "fl (229683580995895245 / 9007199254740992) = 3588805953060863 / 140737488355328"
  by (rule fl_num[where k = 48]) (simp_all add: round_even_def)

lemma fl_probe_13: "fl (344525371493842995 / 4503599627370496) = 5383208929591297 / 70368744177664"
  by (rule fl_num[where k = 46]) (simp_all add: round_even_def)

lemma fl_probe_14: "fl (102) = 102"
  by (rule fl_num[where k = 46]) (simp_all add: round_even_def)

lemma fl_probe_15: "fl (71776119061217275 / 562949953421312) = 8972014882652159 / 70368744177664"
  by (rule fl_num[where k = 46]) (simp_all add: round_even_def)

lemmas fl_probe = fl_probe_0 fl_probe_1 fl_probe_2 fl_probe_3 fl_probe_4 fl_probe_5 fl_probe_6 fl_probe_7 fl_probe_8 fl_probe_9 fl_probe_10 fl_probe_11 fl_probe_12 fl_probe_13 fl_probe_14 fl_probe_15

text \<open>
  The grey \<open>(51, 51, 51)\<close> boosted by 0.5 has the exact green channel 25.5; the program
  computes 25.499999999999993 and rounds it to 25, so with 6 levels the pixel becomes
  \<open>(102, 0, 0)\<close>. With 51 levels the level 25 is exactly 127.5; the program computes
  127.49999999999999 and stores 127.
\<close>

lemma boosted_grey:
  "saturate_pixel (1 / 2) [51, 51, 51, 255] 0 = \<lparr>rgb_r = 77, rgb_g = 25, rgb_b = 25\<rparr>"
  by (simp add: saturate_pixel_def byte_def rgbToHsl_def hslToRgb_def hue2rgb_def clamp01_def
      Math_round_def Let_def fl_post fl_probe fl_minus)

lemma posterized_grey:
  "posterize_loop 51 (1 / 2) 0 [51, 51, 51, 255] = [102, 0, 0, 255]"
proof -
  have ch: "posterize_channel 51 77 = 102" "posterize_channel 51 25 = 0"
    by (simp_all add: posterize_channel_def Math_round_def ToUint8Clamp_def fl_post fl_probe)
  have px: "posterize_loop 51 (1 / 2) (4 * 0) [51, 51, 51, 255] ! (4 * 0 + c) =
      (if c = 3 then 255 else posterize_channel 51
         (channel (saturate_pixel (1 / 2) [51, 51, 51, 255] 0) c))" if "c < 4" for c
    using that by (subst posterize_loop_nth[where n = 1]) auto
  have "posterize_loop 51 (1 / 2) 0 [51, 51, 51, 255] ! c = [102, 0, 0, 255] ! c"
    if "c < 4" for c
  proof -
    from that have "c = 0 \<or> c = 1 \<or> c = 2 \<or> c = 3" by linarith
    then show ?thesis
      using px[OF that] by (auto simp: boosted_grey channel_def ch)
  qed
  then show ?thesis
    by (intro nth_equalityI) (simp_all add: posterize_loop_length)
qed

lemma level_25_of_50:
  "stored_level 50 25 = 127" "ToUint8Clamp (level 50 25) = 128"
  by (simp_all add: stored_level_def level_def ToUint8Clamp_def fl_probe)

section \<open>Halftone: spacing and the no-op threshold\<close>

lemma halftone_cols_returns:
  assumes "0 < spacing"
  shows "\<exists>r. halftone_cols w spacing radius y x = Some r"
proof (induction "nat (w - x)" arbitrary: x rule: less_induct)
  case less
  show ?case
  proof (cases "x < w")
    case True
    then have "nat (w - (x + spacing)) < nat (w - x)" using assms by simp
    from less[OF this] obtain r where "halftone_cols w spacing radius y (x + spacing) = Some r"
      by blast
    then show ?thesis using True by (subst halftone_cols.simps) simp
  next
    case False
    then show ?thesis by (subst halftone_cols.simps) simp
  qed
qed

lemma halftone_rows_returns:
  assumes "0 < spacing"
  shows "\<exists>r. halftone_rows w h spacing radius y = Some r"
proof (induction "nat (h - y)" arbitrary: y rule: less_induct)
  case less
  show ?case
  proof (cases "y < h")
    case True
    then have "nat (h - (y + spacing)) < nat (h - y)" using assms by simp
    from less[OF this] obtain r where "halftone_rows w h spacing radius (y + spacing) = Some r"
      by blast
    moreover obtain row where "halftone_cols w spacing radius y radius = Some row"
      using halftone_cols_returns[OF assms] by blast
    ultimately show ?thesis using True by (subst halftone_rows.simps) simp
  next
    case False
    then show ?thesis by (subst halftone_rows.simps) simp
  qed
qed

lemma halftone_rows_Some:
  assumes "halftone_rows w h s r y = Some res"
  shows "0 < s \<or> \<not> y < h"
proof (rule halftone_rows.raw_induct[where P = "\<lambda>w h s r y res. 0 < s \<or> \<not> y < h"
      and w = w and h = h and spacing = s and radius = r and y = y and ya = res])
  show "halftone_rows w h s r y = Some res" by (rule assms)
next
  fix f :: "int \<Rightarrow> int \<Rightarrow> int \<Rightarrow> int \<Rightarrow> int \<Rightarrow> canvas_op list option"
    and w h s r y :: int and res
  assume IH: "\<And>w h s r y res. f w h s r y = Some res \<Longrightarrow> 0 < s \<or> \<not> y < h"
    and eq: "(if y < h
      then Option.bind (halftone_cols w s r y r)
            (\<lambda>row. Option.bind (f w h s r (y + s)) (\<lambda>rest. Some (row @ rest)))
      else Some []) = Some res"
  show "0 < s \<or> \<not> y < h"
  proof (cases "y < h")
    case True
    with eq obtain rest where "f w h s r (y + s) = Some rest"
      by (auto simp: Option.bind_eq_Some_conv)
    from IH[OF this] True show ?thesis by auto
  next
    case False
    then show ?thesis by simp
  qed
qed

text \<open>On an 8 by 8 canvas, a density of 0.65 gives the spacing -1 and a loop without end.\<close>

lemma halftone_never_ends: "drawHalftone True 8 8 (65 / 100) = None"
proof -
  have "halftone_rows 8 8 (- 1) 1 1 = None"
    using halftone_rows_Some[of 8 8 "- 1" 1 1] by (cases "halftone_rows 8 8 (- 1) 1 1") auto
  then show ?thesis
    by (simp add: drawHalftone_def Let_def halftone_spacing_def halftone_radius_def)
qed

lemma halftone_spacing_mono: "d1 \<le> d2 \<Longrightarrow> halftone_spacing d2 \<le> halftone_spacing d1"
  by (simp add: halftone_spacing_def floor_mono)

lemma halftone_spacing_legal:
  assumes "0 \<le> d" "d \<le> 4 / 10"
  shows "4 \<le> halftone_spacing d" "halftone_spacing d \<le> 12"
proof -
  have "\<lfloor>d * 20\<rfloor> \<le> 8" using assms by (simp add: floor_le_iff)
  moreover have "0 \<le> \<lfloor>d * 20\<rfloor>" using assms by simp
  ultimately show "4 \<le> halftone_spacing d" "halftone_spacing d \<le> 12"
    by (simp_all add: halftone_spacing_def)
qed

lemma halftone_spacing_step:
  assumes "d1 + 1 / 20 \<le> d2"
  shows "halftone_spacing d2 < halftone_spacing d1"
proof -
  have "d1 * 20 + 1 \<le> d2 * 20" using assms by simp
  then have "\<lfloor>d1 * 20 + 1\<rfloor> \<le> \<lfloor>d2 * 20\<rfloor>" by (rule floor_mono)
  then show ?thesis by (simp add: halftone_spacing_def)
qed

text \<open>
  C7, as the code has it. Across the legal range \<open>[0, 0.4]\<close> the spacing
  \<open>12 - floor(D * 20)\<close> never increases with the density, lies between 4 and 12 (so that a
  lower bound of 1 never applies), and is strictly smaller as soon as the density has grown
  by 0.05.
\<close>

theorem C7_spacing_non_increasing:
  assumes "0 \<le> d1" "d1 \<le> d2" "d2 \<le> 4 / 10"
  shows "halftone_spacing d2 \<le> halftone_spacing d1
    \<and> 4 \<le> halftone_spacing d2 \<and> halftone_spacing d1 \<le> 12
    \<and> (d1 + 1 / 20 \<le> d2 \<longrightarrow> halftone_spacing d2 < halftone_spacing d1)"
  using assms halftone_spacing_mono[of d1 d2] halftone_spacing_legal[of d1]
    halftone_spacing_legal[of d2] halftone_spacing_step[of d1 d2]
  by auto

theorem C7_spacing_witness:
  "(0::real) \<le> 1 / 10 \<and> (1 / 10 :: real) \<le> 3 / 10 \<and> (3 / 10 :: real) \<le> 4 / 10
   \<and> (1 / 10 :: real) + 1 / 20 \<le> 3 / 10
   \<and> halftone_spacing (3 / 10) < halftone_spacing (1 / 10)"
  using C7_spacing_non_increasing[of "1 / 10" "3 / 10"] by simp

text \<open>
  The claim as stated fails: the densities 0.25 and 0.28125 are both legal and both give
  the spacing 7.
\<close>

theorem C7_spacing_counterexample:
  "(0::real) \<le> 1 / 4 \<and> (1 / 4 :: real) < 9 / 32 \<and> (9 / 32 :: real) \<le> 4 / 10
   \<and> halftone_spacing (1 / 4) = 7 \<and> halftone_spacing (9 / 32) = 7
   \<and> \<not> halftone_spacing (9 / 32) < halftone_spacing (1 / 4)"
  by (simp add: halftone_spacing_def)

text \<open>
  C10. \<open>drawHalftone\<close> issues no command when the toggle is off or the density is at most
  0.01, although densities in \<open>(0, 0.01]\<close> are legal; for a legal density above 0.01 (and
  the toggle on) it returns, and what it draws is the dot grid at opacity
  \<open>0.15 + D * 0.25\<close>. \<open>stylize\<close> calls it with density 0 when the toggle is off.
\<close>

theorem C10_halftone_threshold:
  "(\<not> on \<or> d \<le> 1 / 100 \<longrightarrow> drawHalftone on w h d = Some [])
   \<and> (on \<and> 1 / 100 < d \<and> d \<le> 4 / 10 \<longrightarrow>
        (\<exists>dots. halftone_rows (int w) (int h) (halftone_spacing d)
                   (halftone_radius (halftone_spacing d))
                   (halftone_radius (halftone_spacing d)) = Some dots
           \<and> drawHalftone on w h d =
               Some ([Save, SetGlobalAlpha (15 / 100 + d * (25 / 100)), SetFillStyle ''#000'']
                     @ dots @ [Restore])))"
proof (intro conjI impI)
  assume "\<not> on \<or> d \<le> 1 / 100"
  then show "drawHalftone on w h d = Some []" by (auto simp: drawHalftone_def)
next
  assume a: "on \<and> 1 / 100 < d \<and> d \<le> 4 / 10"
  then have "4 \<le> halftone_spacing d" by (intro halftone_spacing_legal) auto
  then have "0 < halftone_spacing d" by simp
  from halftone_rows_returns[OF this]
  obtain dots where "halftone_rows (int w) (int h) (halftone_spacing d)
      (halftone_radius (halftone_spacing d)) (halftone_radius (halftone_spacing d)) = Some dots"
    by blast
  then show "\<exists>dots. halftone_rows (int w) (int h) (halftone_spacing d)
                   (halftone_radius (halftone_spacing d))
                   (halftone_radius (halftone_spacing d)) = Some dots
           \<and> drawHalftone on w h d =
               Some ([Save, SetGlobalAlpha (15 / 100 + d * (25 / 100)), SetFillStyle ''#000'']
                     @ dots @ [Restore])"
    using a by (simp add: drawHalftone_def Let_def)
qed

theorem C10_halftone_witness:
  "(1 / 200 :: real) \<le> 1 / 100 \<and> drawHalftone True 8 8 (1 / 200) = Some []
   \<and> (1 / 100 :: real) < 3 / 10 \<and> (3 / 10 :: real) \<le> 4 / 10
   \<and> (\<exists>dots. drawHalftone True 8 8 (3 / 10) =
         Some ([Save, SetGlobalAlpha (15 / 100 + 3 / 10 * (25 / 100)), SetFillStyle ''#000'']
               @ dots @ [Restore]))"
  using C10_halftone_threshold[of True "1 / 200" 8 8] C10_halftone_threshold[of True "3 / 10" 8 8]
  by auto

section \<open>Burst rays\<close>

lemma path_starts_append: "path_starts (xs @ ys) = path_starts xs @ path_starts ys"
  by (induction xs rule: path_starts.induct) simp_all

lemma path_starts_burst_ray: "path_starts (burst_ray w h cx cy rays i) = [(cx, cy)]"
  by (simp add: burst_ray_def Let_def)

lemma path_starts_rays:
  "path_starts (concat (map (burst_ray w h cx cy rays) xs)) = replicate (length xs) (cx, cy)"
  by (induction xs) (simp_all add: path_starts_append path_starts_burst_ray)

text \<open>
  C3, at a canvas of 200 by 100 and strength 0.5. \<open>drawBurst\<close> draws
  \<open>16 + floor(64 * 0.5) = 48\<close> rays, and every one of them begins at the centre
  \<open>(100, 50)\<close> of the canvas: the point at radius 20 is computed and not used.
\<close>

theorem C3_burst_rays_start_at_centre:
  "path_starts (drawBurst 200 100 (1 / 2)) = replicate 48 (100, 50)"
  by (simp add: drawBurst_def Let_def path_starts_append path_starts_rays)

section \<open>Parameter advisor\<close>

text \<open>
  C5, at the statistics \<open>meanSaturation = 0\<close>, \<open>contrastIndex = 1\<close>, \<open>edgeDensity = 0\<close>,
  \<open>saturationStd = 0\<close> and an empty palette. Every suggestion is clamped to \<open>[0, 1]\<close> only:
  the saturation boost is 0.56, above its range \<open>[0, 0.5]\<close>, and the halftone density is
  0.65, above its range \<open>[0, 0.4]\<close>, at which the halftone spacing is -1 (and
  \<open>drawHalftone\<close> never returns, as \<open>halftone_never_ends\<close> shows).
\<close>

theorem C5_suggestion_out_of_range:
  "suggestControls \<lparr>palette = [], meanSaturation = 0, saturationStd = 0, edgeDensity = 0,
      contrastIndex = 1\<rparr>
   = \<lparr>sg_outlineWeight = 4 / 10, sg_saturationBoost = 56 / 100, sg_halftoneDensity = 65 / 100,
      sg_burstStrength = 8 / 10, sg_motifPack = ''psychedelia'', sg_styleIntensity = 9 / 10,
      sg_applyPalette = True\<rparr>
   \<and> halftone_spacing (65 / 100) = - 1"
  by (simp add: suggestControls_def estimateHueBias_def clamp01_def Let_def
      halftone_spacing_def)

section \<open>Buffers: which stage writes where\<close>

lemma copyImageData_fresh:
  assumes "wf_image (\<sigma> ! r)"
  shows "copyImageData \<sigma> r = Inr (\<sigma> @ [\<sigma> ! r], length \<sigma>)"
proof -
  let ?src = "\<sigma> ! r"
  have dims: "width ?src \<noteq> 0" "height ?src \<noteq> 0"
    and len: "length (data ?src) = 4 * width ?src * height ?src"
    using assms by (auto simp: wf_image_def)
  have "createImageData (width ?src) (height ?src) =
    Inr \<lparr>width = width ?src, height = height ?src,
        data = replicate (4 * width ?src * height ?src) 0\<rparr>"
    using dims by (simp add: createImageData_def)
  moreover have "typed_array_set (replicate (4 * width ?src * height ?src) 0) (data ?src)
    = Inr (data ?src)"
    using len by (simp add: typed_array_set_def)
  ultimately show ?thesis by (simp add: copyImageData_def alloc_def)
qed

lemma posterize_first_pixel:
  "posterize_loop 51 (3 / 10) 0 [10, 10, 10, 255] = [0, 0, 0, 255]"
proof -
  have hsl: "rgbToHsl 10 10 10 =
      \<lparr>hsl_h = 0, hsl_s = 0, hsl_l = 1412894000743685 / 36028797018963968\<rparr>"
    by (simp add: rgbToHsl_def Let_def fl_post)
  have s2: "clamp01 (fl (fl (3 / 10))) = 5404319552844595 / 18014398509481984"
    by (simp add: clamp01_def fl_post)
  have rgb: "hslToRgb 0 (5404319552844595 / 18014398509481984)
      (1412894000743685 / 36028797018963968) = \<lparr>rgb_r = 13, rgb_g = 7, rgb_b = 7\<rparr>"
    by (simp add: hslToRgb_def hue2rgb_def Math_round_def Let_def fl_post fl_minus)
  have ch: "posterize_channel 51 13 = 0" "posterize_channel 51 7 = 0"
    by (simp_all add: posterize_channel_def Math_round_def ToUint8Clamp_def fl_post)
  have "posterize_loop 51 (3 / 10) 0 [10, 10, 10, 255]
      = posterize_loop 51 (3 / 10) 4 [0, 0, 0, 255]"
    by (subst posterize_loop.simps) (simp add: byte_def hsl s2 rgb ch Let_def)
  also have "\<dots> = [0, 0, 0, 255]"
    by (subst posterize_loop.simps) simp
  finally show ?thesis .
qed

lemma palette_first_pixel:
  "palette_loop [\<lparr>rgb_r = 0, rgb_g = 0, rgb_b = 0\<rparr>] 0 [10, 10, 10, 255] = [0, 0, 0, 255]"
proof -
  have k: "closestColorIndex c [\<lparr>rgb_r = 0, rgb_g = 0, rgb_b = 0\<rparr>] = 0" for c
    by (simp add: closestColorIndex_def closest_step_def)
  have "palette_loop [\<lparr>rgb_r = 0, rgb_g = 0, rgb_b = 0\<rparr>] 0 [10, 10, 10, 255]
      = palette_loop [\<lparr>rgb_r = 0, rgb_g = 0, rgb_b = 0\<rparr>] 4 [0, 0, 0, 255]"
    by (subst palette_loop.simps) (simp add: k ToUint8Clamp_def Let_def)
  also have "\<dots> = [0, 0, 0, 255]"
    by (subst palette_loop.simps) simp
  finally show ?thesis .
qed

text \<open>
  C9, as the code has it. \<open>posterizeAndSaturate\<close> and \<open>applyPaletteToImageData\<close> write
  their result into the pixel data of the buffer they are given and return that same
  buffer; no other buffer changes. The stage that makes a new buffer is \<open>copyImageData\<close>:
  it returns a fresh buffer equal to its source and leaves every existing buffer as it
  was, and posterizing such a copy (as \<open>stylize\<close> does) leaves the source unchanged.
\<close>

theorem C9_stages_write_in_place:
  assumes "r < length \<sigma>" and "wf_image (\<sigma> ! r)"
  shows "snd (posterizeAndSaturate \<sigma> r L B) = r
    \<and> data (fst (posterizeAndSaturate \<sigma> r L B) ! r)
        = posterize_loop (fl (255 / max 2 (fl (L - 1)))) B 0 (data (\<sigma> ! r))
    \<and> (\<forall>q. q \<noteq> r \<longrightarrow> fst (posterizeAndSaturate \<sigma> r L B) ! q = \<sigma> ! q)
    \<and> snd (applyPaletteToImageData \<sigma> r pal) = r
    \<and> (\<forall>p. pal = Some p \<and> p \<noteq> [] \<longrightarrow>
          data (fst (applyPaletteToImageData \<sigma> r pal) ! r) = palette_loop p 0 (data (\<sigma> ! r)))
    \<and> (\<forall>q. q \<noteq> r \<longrightarrow> fst (applyPaletteToImageData \<sigma> r pal) ! q = \<sigma> ! q)
    \<and> (\<exists>\<sigma>' copy. copyImageData \<sigma> r = Inr (\<sigma>', copy) \<and> copy = length \<sigma>
          \<and> \<sigma>' ! copy = \<sigma> ! r \<and> (\<forall>q < length \<sigma>. \<sigma>' ! q = \<sigma> ! q)
          \<and> fst (posterizeAndSaturate \<sigma>' copy L B) ! r = \<sigma> ! r)"
proof -
  have post: "posterizeAndSaturate \<sigma> r L B =
    (\<sigma>[r := (\<sigma> ! r)\<lparr>data := posterize_loop (fl (255 / max 2 (fl (L - 1)))) B 0 (data (\<sigma> ! r))\<rparr>], r)"
    by (simp add: posterizeAndSaturate_def Let_def)
  have pal: "snd (applyPaletteToImageData \<sigma> r pal) = r"
    "\<And>p. pal = Some p \<Longrightarrow> p \<noteq> [] \<Longrightarrow>
       data (fst (applyPaletteToImageData \<sigma> r pal) ! r) = palette_loop p 0 (data (\<sigma> ! r))"
    "\<And>q. q \<noteq> r \<Longrightarrow> fst (applyPaletteToImageData \<sigma> r pal) ! q = \<sigma> ! q"
    using assms(1) by (auto simp: applyPaletteToImageData_def split: option.splits)
  have copy: "copyImageData \<sigma> r = Inr (\<sigma> @ [\<sigma> ! r], length \<sigma>)"
    by (rule copyImageData_fresh[OF assms(2)])
  have "fst (posterizeAndSaturate (\<sigma> @ [\<sigma> ! r]) (length \<sigma>) L B) ! r = \<sigma> ! r"
    using assms(1) by (simp add: posterizeAndSaturate_def Let_def nth_append)
  with copy have "\<exists>\<sigma>' copy. copyImageData \<sigma> r = Inr (\<sigma>', copy) \<and> copy = length \<sigma>
          \<and> \<sigma>' ! copy = \<sigma> ! r \<and> (\<forall>q < length \<sigma>. \<sigma>' ! q = \<sigma> ! q)
          \<and> fst (posterizeAndSaturate \<sigma>' copy L B) ! r = \<sigma> ! r"
    by (simp add: nth_append)
  then show ?thesis using assms(1) pal by (simp add: post)
qed

theorem C9_stages_witness:
  "(0::nat) < length [\<lparr>width = 1, height = 1, data = [10, 10, 10, 255]\<rparr>]
   \<and> wf_image ([\<lparr>width = 1, height = 1, data = [10, 10, 10, 255]\<rparr>] ! 0)
   \<and> snd (posterizeAndSaturate [\<lparr>width = 1, height = 1, data = [10, 10, 10, 255]\<rparr>] 0 6 (3 / 10)) = 0
   \<and> (\<exists>\<sigma>' copy. copyImageData [\<lparr>width = 1, height = 1, data = [10, 10, 10, 255]\<rparr>] 0
          = Inr (\<sigma>', copy)
        \<and> copy = length [\<lparr>width = 1, height = 1, data = [10, 10, 10, 255 :: u8]\<rparr>]
        \<and> fst (posterizeAndSaturate \<sigma>' copy 6 (3 / 10)) ! 0
          = [\<lparr>width = 1, height = 1, data = [10, 10, 10, 255]\<rparr>] ! 0)"
proof -
  let ?\<sigma> = "[\<lparr>width = 1, height = 1, data = [10, 10, 10, 255 :: u8]\<rparr>]"
  have h: "(0::nat) < length ?\<sigma>" "wf_image (?\<sigma> ! 0)" by (simp_all add: wf_image_def)
  from C9_stages_write_in_place[OF h, of 6 "3 / 10" None] h show ?thesis by blast
qed

text \<open>
  The claim as stated fails on a buffer of one dark grey pixel: after
  \<open>posterizeAndSaturate\<close> with 6 levels and boost 0.3, and after
  \<open>applyPaletteToImageData\<close> with the palette of black alone, the buffer that was passed in
  holds black, and the buffer returned is the one passed in.
\<close>

theorem C9_stages_counterexample:
  "posterizeAndSaturate [\<lparr>width = 1, height = 1, data = [10, 10, 10, 255]\<rparr>] 0 6 (3 / 10)
     = ([\<lparr>width = 1, height = 1, data = [0, 0, 0, 255]\<rparr>], 0)
   \<and> applyPaletteToImageData [\<lparr>width = 1, height = 1, data = [10, 10, 10, 255]\<rparr>] 0
       (Some [\<lparr>rgb_r = 0, rgb_g = 0, rgb_b = 0\<rparr>])
     = ([\<lparr>width = 1, height = 1, data = [0, 0, 0, 255]\<rparr>], 0)"
  by (simp add: posterizeAndSaturate_def applyPaletteToImageData_def posterize_first_pixel
      palette_first_pixel fl_post)

section \<open>The pipeline and randomness\<close>

lemma sobelEdges_returns:
  assumes "0 < w" "0 < h"
  shows "\<exists>edges. sobelEdges canvas w h t = Inr edges"
  using assms by (simp add: sobelEdges_def getImageData_def createImageData_def)

lemma drawHalftone_returns:
  assumes "d \<le> 4 / 10"
  shows "\<exists>dots. drawHalftone on w h d = Some dots"
proof (cases "\<not> on \<or> d \<le> 1 / 100")
  case True
  then show ?thesis by (auto simp: drawHalftone_def)
next
  case False
  then have "0 \<le> d" by simp
  from halftone_spacing_legal(1)[OF this assms] have "0 < halftone_spacing d" by simp
  from halftone_rows_returns[OF this]
  obtain dots where "halftone_rows (int w) (int h) (halftone_spacing d)
      (halftone_radius (halftone_spacing d)) (halftone_radius (halftone_spacing d)) = Some dots"
    by blast
  then show ?thesis using False by (simp add: drawHalftone_def Let_def)
qed

lemma flame_tongues_draws:
  "snd (fold (flame_tongue rnd w h tongues) xs (ops, n)) = n + 2 * length xs"
  by (induction xs arbitrary: ops n) (simp_all add: flame_tongue_def drawFlame_def Let_def)

lemma spiral_motifs_draws:
  "snd (fold (spiral_motif rnd w h spirals) xs (ops, n)) = n + 3 * length xs"
  by (induction xs arbitrary: ops n) (simp_all add: spiral_motif_def Let_def)

text \<open>
  The random numbers each pack draws: none for \<open>none\<close> and \<open>waves\<close>, two for each flame
  (its height, then its wobble) and three for each spiral.
\<close>

lemma drawMotifs_draws:
  "snd (drawMotifs rnd n w h ''none'' i) = n"
  "snd (drawMotifs rnd n w h ''waves'' i) = n"
  "snd (drawMotifs rnd n w h ''flames'' i) = n + 2 * nat \<lfloor>25 + i * 40\<rfloor>"
  "snd (drawMotifs rnd n w h ''psychedelia'' i) = n + 3 * nat \<lfloor>4 + i * 6\<rfloor>"
  by (simp_all add: drawMotifs_def Let_def split_beta flame_tongues_draws spiral_motifs_draws)

lemma stylize_without_motifs:
  assumes "motifPack c = ''none''"
  shows "map_option (map_sum id fst) (stylize c mounted ocan rnd n)
    = map_option (map_sum id fst) (stylize c mounted ocan (\<lambda>_. 0) 0)"
  using assms
  by (auto simp: stylize_def drawMotifs_def Let_def
      split: sum.splits prod.splits Option.bind_splits)


lemma stylize_returns:
  assumes "mounted" "wf_image ocan" "halftoneDensity c \<le> 4 / 10" "motifPack c = ''none''"
  shows "\<exists>ops. stylize c mounted ocan rnd n = Some (Inr (ops, n))"
proof -
  have dims: "0 < width ocan" "0 < height ocan" using assms(2) by (auto simp: wf_image_def)
  then have base: "getImageData ocan (width ocan) (height ocan) = Inr ocan"
    by (simp add: getImageData_def)
  have copy: "copyImageData [ocan] 0 = Inr ([ocan] @ [[ocan] ! 0], length [ocan])"
    by (rule copyImageData_fresh) (use assms(2) in simp)
  obtain edges where edges:
    "sobelEdges ocan (width ocan) (height ocan) (100 - outlineWeight c * 80) = Inr edges"
    using sobelEdges_returns[OF dims] by blast
  have "(if halftone c then halftoneDensity c else 0) \<le> 4 / 10" using assms(3) by simp
  from drawHalftone_returns[OF this]
  obtain dots where dots: "drawHalftone (halftone c) (width ocan) (height ocan)
      (if halftone c then halftoneDensity c else 0) = Some dots"
    by blast
  show ?thesis
    using assms(1,4) base copy edges dots
    by (simp add: stylize_def drawMotifs_def Let_def split: prod.splits)
qed

text \<open>
  C4. With \<open>motifPack = none\<close>, the commands that \<open>stylize\<close> issues on the stylized canvas
  (which carry the posterized buffer and the edge buffer) do not depend on the random
  sequence nor on how far it has been consumed. On a loaded image with a legal halftone
  density, two runs on the same source and controls both return, draw no random number and
  issue the same commands, so that the canvas holds the same pixels after both.
\<close>

theorem C4_stylize_deterministic:
  assumes "motifPack c = ''none''"
  shows "map_option (map_sum id fst) (stylize c mounted ocan rnd1 n1)
       = map_option (map_sum id fst) (stylize c mounted ocan rnd2 n2)
    \<and> (mounted \<and> wf_image ocan \<and> halftoneDensity c \<le> 4 / 10 \<longrightarrow>
         (\<exists>ops1 ops2. stylize c mounted ocan rnd1 n1 = Some (Inr (ops1, n1))
              \<and> stylize c mounted ocan rnd2 n2 = Some (Inr (ops2, n2))
              \<and> ops1 = ops2
              \<and> rendered paint blank ops1 = rendered paint blank ops2))"
proof (intro conjI impI)
  show eq: "map_option (map_sum id fst) (stylize c mounted ocan rnd1 n1)
       = map_option (map_sum id fst) (stylize c mounted ocan rnd2 n2)"
    using stylize_without_motifs[OF assms, of mounted ocan rnd1 n1]
      stylize_without_motifs[OF assms, of mounted ocan rnd2 n2]
    by simp
  assume a: "mounted \<and> wf_image ocan \<and> halftoneDensity c \<le> 4 / 10"
  then obtain ops1 ops2 where
    r: "stylize c mounted ocan rnd1 n1 = Some (Inr (ops1, n1))"
       "stylize c mounted ocan rnd2 n2 = Some (Inr (ops2, n2))"
    using stylize_returns[of mounted ocan c] assms by blast
  with eq have "ops1 = ops2" by simp
  with r show "\<exists>ops1 ops2. stylize c mounted ocan rnd1 n1 = Some (Inr (ops1, n1))
              \<and> stylize c mounted ocan rnd2 n2 = Some (Inr (ops2, n2))
              \<and> ops1 = ops2
              \<and> rendered paint blank ops1 = rendered paint blank ops2"
    by simp
qed

theorem C4_stylize_witness:
  "motifPack \<lparr>styleIntensity = 7 / 10, outlineWeight = 8 / 10, saturationBoost = 3 / 10,
      motifPack = ''none'', halftone = True, halftoneDensity = 15 / 100,
      burstStrength = 5 / 10, transparentBG = False\<rparr> = ''none''
   \<and> wf_image \<lparr>width = 1, height = 1, data = [10, 10, 10, 255]\<rparr>
   \<and> (\<exists>ops1 ops2.
        stylize \<lparr>styleIntensity = 7 / 10, outlineWeight = 8 / 10, saturationBoost = 3 / 10,
            motifPack = ''none'', halftone = True, halftoneDensity = 15 / 100,
            burstStrength = 5 / 10, transparentBG = False\<rparr> True
          \<lparr>width = 1, height = 1, data = [10, 10, 10, 255]\<rparr> (\<lambda>k. 0) 0 = Some (Inr (ops1, 0))
      \<and> stylize \<lparr>styleIntensity = 7 / 10, outlineWeight = 8 / 10, saturationBoost = 3 / 10,
            motifPack = ''none'', halftone = True, halftoneDensity = 15 / 100,
            burstStrength = 5 / 10, transparentBG = False\<rparr> True
          \<lparr>width = 1, height = 1, data = [10, 10, 10, 255]\<rparr> (\<lambda>k. 1 / 2) 7 = Some (Inr (ops2, 7))
      \<and> ops1 = ops2)"
proof -
  let ?c = "\<lparr>styleIntensity = 7 / 10, outlineWeight = 8 / 10, saturationBoost = 3 / 10,
      motifPack = ''none'', halftone = True, halftoneDensity = 15 / 100,
      burstStrength = 5 / 10, transparentBG = False\<rparr>"
  let ?img = "\<lparr>width = 1, height = 1, data = [10, 10, 10, 255 :: u8]\<rparr>"
  have h: "motifPack ?c = ''none''" by simp
  have g: "True \<and> wf_image ?img \<and> halftoneDensity ?c \<le> 4 / 10" by (simp add: wf_image_def)
  from C4_stylize_deterministic[OF h, of True ?img "\<lambda>k. 0" 0 "\<lambda>k. 1 / 2" 7 "\<lambda>b p. b" "()"] g h
  show ?thesis by blast
qed

section \<open>Edge detector\<close>

lemma idx_nonneg:
  assumes "0 \<le> a" "0 \<le> b"
  shows "idx w a b = 4 * (nat b * w + nat a)"
proof -
  have "(b * int w + a) * 4 = int (4 * (nat b * w + nat a))" using assms by simp
  then show ?thesis unfolding idx_def by (simp only: nat_int)
qed

lemma sobel_tap_luminance:
  assumes "0 \<le> int x + i" "0 \<le> int y + j"
  shows "sobel_tap d w x y (sx, sy, k) (j, i) =
    (tap_fl sx (luminance_fl d w (nat (int x + i)) (nat (int y + j)), gx_kernel ! k),
     tap_fl sy (luminance_fl d w (nat (int x + i)) (nat (int y + j)), gy_kernel ! k),
     k + 1)"
  by (simp add: sobel_tap_def Let_def idx_nonneg[OF assms] luminance_fl_def tap_fl_def
      mult.commute)

lemma sobel_sums_gradient:
  assumes "1 \<le> x" "1 \<le> y"
  shows "sobel_sums d w x y = (gradient_x_fl d w x y, gradient_y_fl d w x y, 9)"
proof -
  define L where "L = luminance_fl d w"
  have tap: "sobel_tap d w x y (sx, sy, k) (j, i) =
      (tap_fl sx (L (nat (int x + i)) (nat (int y + j)), gx_kernel ! k),
       tap_fl sy (L (nat (int x + i)) (nat (int y + j)), gy_kernel ! k), k + 1)"
    if "i \<in> {-1, 0, 1}" "j \<in> {-1, 0, 1}" for sx sy k i j
    unfolding L_def using that assms by (intro sobel_tap_luminance) auto
  have pos: "nat (int x + - 1) = x - 1" "nat (int x + 0) = x" "nat (int x + 1) = x + 1"
    "nat (int y + - 1) = y - 1" "nat (int y + 0) = y" "nat (int y + 1) = y + 1"
    using assms by simp_all
  show ?thesis
    unfolding sobel_sums_def gradient_x_fl_def gradient_y_fl_def L_def[symmetric]
    by (simp only: list.map concat.simps append.simps foldl.simps tap pos
        insertI1 insertI2 gx_kernel_def gy_kernel_def nth_Cons_0 nth_Cons_numeral nth_Cons_Suc
        One_nat_def[symmetric] numeral_eq_Suc pred_numeral_simps)
       simp
qed


lemma sobel_pixel_write:
  assumes "1 \<le> x" "1 \<le> y"
  shows "sobel_pixel d w T y out x =
    out[4 * (y * w + x) := 0, 4 * (y * w + x) + 1 := 0, 4 * (y * w + x) + 2 := 0,
        4 * (y * w + x) + 3 := edge_alpha_fl d w T x y]"
proof -
  have "idx w (int x) (int y) = 4 * (y * w + x)"
    using idx_nonneg[of "int x" "int y" w] by simp
  then show ?thesis
    by (simp add: sobel_pixel_def sobel_sums_gradient[OF assms] edge_alpha_fl_def
        magnitude_fl_def Let_def)
qed

lemma pixel_inj:
  fixes x y x' y' w :: nat
  assumes "x < w" "x' < w" "y' * w + x' = y * w + x"
  shows "y' = y \<and> x' = x"
proof -
  have "(y' * w + x') div w = y'" "(y * w + x) div w = y" using assms(1,2) by simp_all
  then have "y' = y" using assms(3) by simp
  then show ?thesis using assms(3) by simp
qed

lemma pixel_bound:
  fixes x y w h :: nat
  assumes "x < w" "y < h"
  shows "4 * (y * w + x) + 3 < 4 * w * h"
proof -
  have "y * w + x < y * w + w" using assms(1) by simp
  also have "\<dots> = (y + 1) * w" by simp
  also have "\<dots> \<le> h * w" using assms(2) by (intro mult_right_mono) auto
  finally show ?thesis by (simp add: mult.commute)
qed

lemma sobel_pixel_nth:
  assumes "1 \<le> x" "1 \<le> y" "x < w" "y < h" "x' < w" "c < 4" "length out = 4 * w * h"
  shows "sobel_pixel d w T y out x ! (4 * (y' * w + x') + c) =
    (if y' = y \<and> x' = x then (if c = 3 then edge_alpha_fl d w T x y else 0)
     else out ! (4 * (y' * w + x') + c))"
proof (cases "y' = y \<and> x' = x")
  case True
  have "4 * (y * w + x) + 3 < length out" using pixel_bound[OF assms(3,4)] assms(7) by simp
  moreover from assms(6) have "c = 0 \<or> c = 1 \<or> c = 2 \<or> c = 3" by linarith
  ultimately show ?thesis using True
    by (auto simp: sobel_pixel_write[OF assms(1,2)])
next
  case False
  then have "y' * w + x' \<noteq> y * w + x" using pixel_inj[OF assms(3,5)] by blast
  then have "4 * (y' * w + x') + c \<noteq> 4 * (y * w + x)"
    "4 * (y' * w + x') + c \<noteq> 4 * (y * w + x) + 1"
    "4 * (y' * w + x') + c \<noteq> 4 * (y * w + x) + 2"
    "4 * (y' * w + x') + c \<noteq> 4 * (y * w + x) + 3"
    using assms(6) by presburger+
  then have "sobel_pixel d w T y out x ! (4 * (y' * w + x') + c) = out ! (4 * (y' * w + x') + c)"
    by (simp add: sobel_pixel_write[OF assms(1,2)])
  then show ?thesis using False by auto
qed

lemma sobel_pixel_length: "length (sobel_pixel d w T y out x) = length out"
  by (simp add: sobel_pixel_def Let_def split_beta)

lemma sobel_pixels_length: "length (foldl (sobel_pixel d w T y) out xs) = length out"
  by (induction xs arbitrary: out) (simp_all add: sobel_pixel_length)

lemma sobel_pixels_nth:
  assumes "\<forall>x\<in>set xs. 1 \<le> x \<and> x < w" "1 \<le> y" "y < h" "x' < w" "c < 4"
    "length out = 4 * w * h"
  shows "foldl (sobel_pixel d w T y) out xs ! (4 * (y' * w + x') + c) =
    (if y' = y \<and> x' \<in> set xs then (if c = 3 then edge_alpha_fl d w T x' y else 0)
     else out ! (4 * (y' * w + x') + c))"
  using assms(1,6)
proof (induction xs arbitrary: out)
  case Nil
  then show ?case by simp
next
  case (Cons x xs)
  have x: "1 \<le> x" "x < w" using Cons.prems(1) by auto
  have "length (sobel_pixel d w T y out x) = 4 * w * h"
    using Cons.prems(2) by (simp add: sobel_pixel_length)
  with Cons.IH[of "sobel_pixel d w T y out x"] Cons.prems(1)
  have "foldl (sobel_pixel d w T y) (sobel_pixel d w T y out x) xs ! (4 * (y' * w + x') + c) =
    (if y' = y \<and> x' \<in> set xs then (if c = 3 then edge_alpha_fl d w T x' y else 0)
     else sobel_pixel d w T y out x ! (4 * (y' * w + x') + c))"
    by simp
  then show ?case
    using sobel_pixel_nth[OF x(1) assms(2) x(2) assms(3,4,5) Cons.prems(2), of d T y']
    by auto
qed

lemma sobel_row_length: "length (sobel_row d w T out y) = length out"
  by (simp add: sobel_row_def sobel_pixels_length)

lemma sobel_rows_length: "length (foldl (sobel_row d w T) out ys) = length out"
  by (induction ys arbitrary: out) (simp_all add: sobel_row_length)

lemma sobel_row_nth:
  assumes "1 \<le> y" "y < h" "x' < w" "c < 4" "length out = 4 * w * h"
  shows "sobel_row d w T out y ! (4 * (y' * w + x') + c) =
    (if y' = y \<and> 1 \<le> x' \<and> x' + 1 < w then (if c = 3 then edge_alpha_fl d w T x' y else 0)
     else out ! (4 * (y' * w + x') + c))"
proof -
  have "\<forall>x\<in>set [1..<w - 1]. 1 \<le> x \<and> x < w" by auto
  from sobel_pixels_nth[OF this assms, of d T y'] show ?thesis
    unfolding sobel_row_def by auto
qed

lemma sobel_rows_nth:
  assumes "\<forall>y\<in>set ys. 1 \<le> y \<and> y < h" "x' < w" "c < 4" "length out = 4 * w * h"
  shows "foldl (sobel_row d w T) out ys ! (4 * (y' * w + x') + c) =
    (if y' \<in> set ys \<and> 1 \<le> x' \<and> x' + 1 < w then (if c = 3 then edge_alpha_fl d w T x' y' else 0)
     else out ! (4 * (y' * w + x') + c))"
  using assms(1,4)
proof (induction ys arbitrary: out)
  case Nil
  then show ?case by simp
next
  case (Cons y ys)
  have y: "1 \<le> y" "y < h" using Cons.prems(1) by auto
  have "length (sobel_row d w T out y) = 4 * w * h"
    using Cons.prems(2) by (simp add: sobel_row_length)
  with Cons.IH[of "sobel_row d w T out y"] Cons.prems(1)
  have "foldl (sobel_row d w T) (sobel_row d w T out y) ys ! (4 * (y' * w + x') + c) =
    (if y' \<in> set ys \<and> 1 \<le> x' \<and> x' + 1 < w then (if c = 3 then edge_alpha_fl d w T x' y' else 0)
     else sobel_row d w T out y ! (4 * (y' * w + x') + c))"
    by simp
  then show ?case
    using sobel_row_nth[OF y assms(2,3) Cons.prems(2), of d T y']
    by auto
qed


text \<open>
  C6, amended. For a buffer of width and height at least 3 and any threshold \<open>T\<close>,
  \<open>sobelEdges\<close> returns a mask of the same size whose red, green and blue bytes are all
  zero; an interior pixel has alpha 255 exactly when the gradient magnitude of the
  luminance field there, as computed in binary64 with every product, every sum and the
  square root rounded, exceeds \<open>T\<close>, and alpha 0 otherwise; every pixel of the first and
  last row and column has alpha 0.
\<close>

theorem C6_sobel_edges:
  assumes "3 \<le> w" "3 \<le> h" "length (data canvas) = 4 * w * h"
  shows "\<exists>out. sobelEdges canvas w h T = Inr out
    \<and> width out = w \<and> height out = h \<and> length (data out) = 4 * w * h
    \<and> (\<forall>x<w. \<forall>y<h.
          data out ! (4 * (y * w + x)) = 0
        \<and> data out ! (4 * (y * w + x) + 1) = 0
        \<and> data out ! (4 * (y * w + x) + 2) = 0
        \<and> (interior w h x y \<longrightarrow>
              (data out ! (4 * (y * w + x) + 3) = 255
                 \<longleftrightarrow> magnitude_fl (data canvas) w x y > T)
            \<and> (data out ! (4 * (y * w + x) + 3) = 0
                 \<longleftrightarrow> \<not> magnitude_fl (data canvas) w x y > T))
        \<and> (\<not> interior w h x y \<longrightarrow> data out ! (4 * (y * w + x) + 3) = 0))"
proof -
  define blank :: "u8 list" where "blank = replicate (4 * w * h) 0"
  define res where "res = foldl (sobel_row (data canvas) w T) blank [1..<h - 1]"
  have run: "sobelEdges canvas w h T = Inr \<lparr>width = w, height = h, data = res\<rparr>"
    using assms(1,2)
    by (simp add: sobelEdges_def getImageData_def createImageData_def res_def blank_def)
  have len: "length res = 4 * w * h" by (simp add: res_def sobel_rows_length blank_def)
  have rows: "\<forall>y\<in>set [1..<h - 1]. 1 \<le> y \<and> y < h" by auto
  have nth: "res ! (4 * (y * w + x) + c) =
      (if interior w h x y then (if c = 3 then edge_alpha_fl (data canvas) w T x y else 0) else 0)"
    if "x < w" "y < h" "c < 4" for x y c
  proof -
    have "4 * (y * w + x) + c < 4 * w * h" using pixel_bound[OF that(1,2)] that(3) by simp
    then have "blank ! (4 * (y * w + x) + c) = 0" by (simp add: blank_def)
    moreover have "interior w h x y \<longleftrightarrow> y \<in> set [1..<h - 1] \<and> 1 \<le> x \<and> x + 1 < w"
      by (auto simp: interior_def)
    ultimately show ?thesis
      unfolding res_def
      using sobel_rows_nth[OF rows that(1,3), of blank "data canvas" T y]
      by (simp add: blank_def)
  qed
  have px: "res ! (4 * (y * w + x)) = 0 \<and> res ! (4 * (y * w + x) + 1) = 0
      \<and> res ! (4 * (y * w + x) + 2) = 0
      \<and> (interior w h x y \<longrightarrow>
            (res ! (4 * (y * w + x) + 3) = 255 \<longleftrightarrow> magnitude_fl (data canvas) w x y > T)
          \<and> (res ! (4 * (y * w + x) + 3) = 0
               \<longleftrightarrow> \<not> magnitude_fl (data canvas) w x y > T))
      \<and> (\<not> interior w h x y \<longrightarrow> res ! (4 * (y * w + x) + 3) = 0)"
    if "x < w" "y < h" for x y
    using nth[OF that, of 0] nth[OF that, of 1] nth[OF that, of 2] nth[OF that, of 3]
    by (simp add: edge_alpha_fl_def)
  show ?thesis using run len px by simp
qed

subsection \<open>Two 3 by 3 buffers\<close>

text \<open>The roundings that the two computations below meet.\<close>

lemma fl_sobel_0: "fl (1 / 1237940039285380274899124224) = 1 / 1237940039285380274899124224"
  by (rule fl_num[where k = 142]) (simp_all add: round_even_def)

lemma fl_sobel_1: "fl (1 / 35184372088832) = 1 / 35184372088832"
  by (rule fl_num[where k = 97]) (simp_all add: round_even_def)

lemma fl_sobel_2: "fl (361 / 5000) = 5202558289538397 / 72057594037927936"
  by (rule fl_num[where k = 56]) (simp_all add: round_even_def)

lemma fl_sobel_3: "fl (1063 / 5000) = 1914930561557935 / 9007199254740992"
  by (rule fl_num[where k = 55]) (simp_all add: round_even_def)

lemma fl_sobel_4: "fl (46823024605845573 / 72057594037927936) = 5852878075730697 / 9007199254740992"
  by (rule fl_num[where k = 53]) (simp_all add: round_even_def)

lemma fl_sobel_5: "fl (447 / 625) = 6441948906990757 / 9007199254740992"
  by (rule fl_num[where k = 53]) (simp_all add: round_even_def)

lemma fl_sobel_6: "fl (17234375054021415 / 9007199254740992) = 2154296881752677 / 1125899906842624"
  by (rule fl_num[where k = 52]) (simp_all add: round_even_def)

lemma fl_sobel_7: "fl (57977540162916813 / 9007199254740992) = 3623596260182301 / 562949953421312"
  by (rule fl_num[where k = 50]) (simp_all add: round_even_def)

lemma fl_sobel_8: "fl (9401489402117279 / 1125899906842624) = 293796543816165 / 35184372088832"
  by (rule fl_num[where k = 49]) (simp_all add: round_even_def)

lemma fl_sobel_9: "fl (81064793292668937 / 9007199254740992) = 5066549580791809 / 562949953421312"
  by (rule fl_num[where k = 49]) (simp_all add: round_even_def)

lemma fl_sobel_10: "fl (5066549580791809 / 562949953421312) = 5066549580791809 / 562949953421312"
  by (rule fl_num[where k = 49]) (simp_all add: round_even_def)

lemma fl_sobel_11: "fl (5066549580791809 / 281474976710656) = 5066549580791809 / 281474976710656"
  by (rule fl_num[where k = 48]) (simp_all add: round_even_def)

lemma fl_sobel_12: "fl (1326652363832291235 / 72057594037927936) = 323889737263743 / 17592186044416"
  by (rule fl_num[where k = 48]) (simp_all add: round_even_def)

lemma fl_sobel_13: "fl (15199648742375427 / 562949953421312) = 3799912185593857 / 140737488355328"
  by (rule fl_num[where k = 48]) (simp_all add: round_even_def)

lemma fl_sobel_14: "fl (3799912185593857 / 140737488355328) = 3799912185593857 / 140737488355328"
  by (rule fl_num[where k = 48]) (simp_all add: round_even_def)

lemma fl_sobel_15: "fl (20266198323167237 / 562949953421312) = 5066549580791809 / 140737488355328"
  by (rule fl_num[where k = 47]) (simp_all add: round_even_def)

lemma fl_sobel_16: "fl (488307293197273425 / 9007199254740992) = 7629801456207397 / 140737488355328"
  by (rule fl_num[where k = 47]) (simp_all add: round_even_def)

lemma fl_sobel_17: "fl (1642696971282643035 / 9007199254740992) = 802098130509103 / 4398046511104"
  by (rule fl_num[where k = 45]) (simp_all add: round_even_def)

lemma fl_sobel_18: "fl (33296941632498693 / 140737488355328) = 8324235408124673 / 35184372088832"
  by (rule fl_num[where k = 45]) (simp_all add: round_even_def)

lemma fl_sobel_19: "fl (4486007441326079 / 17592186044416) = 4486007441326079 / 17592186044416"
  by (rule fl_num[where k = 45]) (simp_all add: round_even_def)

lemma fl_sobel_20: "fl (8972014882652159 / 35184372088832) = 8972014882652159 / 35184372088832"
  by (rule fl_num[where k = 45]) (simp_all add: round_even_def)

lemma fl_sobel_21: "fl (8972014882652159 / 17592186044416) = 8972014882652159 / 17592186044416"
  by (rule fl_num[where k = 44]) (simp_all add: round_even_def)

lemma fl_sobel_22: "fl (6729011161989119 / 8796093022208) = 6729011161989119 / 8796093022208"
  by (rule fl_num[where k = 43]) (simp_all add: round_even_def)

lemma fl_sobel_23: "fl (26916044647956477 / 35184372088832) = 6729011161989119 / 8796093022208"
  by (rule fl_num[where k = 43]) (simp_all add: round_even_def)

lemma fl_sobel_24: "fl (35888059530608635 / 35184372088832) = 8972014882652159 / 8796093022208"
  by (rule fl_num[where k = 43]) (simp_all add: round_even_def)

lemma fl_sobel_25: "fl (2849934139195393 / 2199023255552) = 2849934139195393 / 2199023255552"
  by (rule fl_num[where k = 42]) (simp_all add: round_even_def)

lemma fl_sobel_26: "fl (25669924654621655513407401492481 / 19807040628566084398385987584) = 2849934139195393 / 2199023255552"
  by (rule fl_num[where k = 42]) (simp_all add: round_even_def)

lemma fl_sobel_27: "fl (1287952816872509349774672690937857 / 1237940039285380274899124224) = 4468483974758399 / 4294967296"
  by (rule fl_num[where k = 33]) (simp_all add: round_even_def)

lemma fl_sobel_28: "fl (80497051054531834431285787361281 / 77371252455336267181195264) = 4468483974758399 / 4294967296"
  by (rule fl_num[where k = 33]) (simp_all add: round_even_def)

lemmas fl_sobel = fl_sobel_0 fl_sobel_1 fl_sobel_2 fl_sobel_3 fl_sobel_4 fl_sobel_5 fl_sobel_6 fl_sobel_7 fl_sobel_8 fl_sobel_9 fl_sobel_10 fl_sobel_11 fl_sobel_12 fl_sobel_13 fl_sobel_14 fl_sobel_15 fl_sobel_16 fl_sobel_17 fl_sobel_18 fl_sobel_19 fl_sobel_20 fl_sobel_21 fl_sobel_22 fl_sobel_23 fl_sobel_24 fl_sobel_25 fl_sobel_26 fl_sobel_27 fl_sobel_28

lemma sobelEdges_3x3:
  assumes "length d = 36"
  shows "sobelEdges \<lparr>width = 3, height = 3, data = d\<rparr> 3 3 T =
    Inr \<lparr>width = 3, height = 3,
         data = (replicate 36 0)[16 := 0, 17 := 0, 18 := 0, 19 := edge_alpha_fl d 3 T 1 1]\<rparr>"
proof -
  have "[1..<3 - 1] = [1::nat]" by (simp add: upt_rec)
  then show ?thesis
    by (simp add: sobelEdges_def getImageData_def createImageData_def sobel_row_def
        sobel_pixel_write)
qed

text \<open>
  Columns of grey 0, 0 and 9: the exact gradient at the centre is \<open>(36, 0)\<close>; in binary64
  the luminance of grey 9 is \<open>9 + 2 ^ (-49)\<close>, the horizontal sum \<open>36 + 2 ^ (-47)\<close>, and
  the computed magnitude is above 36.
\<close>

lemma grey9_exact:
  "gradient_magnitude [0, 0, 0, 255, 0, 0, 0, 255, 9, 9, 9, 255,
               0, 0, 0, 255, 0, 0, 0, 255, 9, 9, 9, 255,
               0, 0, 0, 255, 0, 0, 0, 255, 9, 9, 9, 255] 3 1 1 = 36"
proof -
  let ?d = "[0, 0, 0, 255, 0, 0, 0, 255, 9, 9, 9, 255,
               0, 0, 0, 255, 0, 0, 0, 255, 9, 9, 9, 255,
               0, 0, 0, 255, 0, 0, 0, 255, 9, 9, 9, 255] :: u8 list"
  have gx: "gradient_x ?d 3 1 1 = 36"
    by (simp add: gradient_x_def luminance_def byte_def)
  have gy: "gradient_y ?d 3 1 1 = 0"
    by (simp add: gradient_y_def luminance_def byte_def)
  have "gradient_magnitude ?d 3 1 1 = sqrt (36\<^sup>2 + 0\<^sup>2)"
    by (simp only: gradient_magnitude_def gx gy)
  also have "\<dots> = 36" by (simp only: zero_power2 add_0_right real_sqrt_abs abs_numeral)
  finally show ?thesis .
qed

lemma grey9_fl:
  "magnitude_fl [0, 0, 0, 255, 0, 0, 0, 255, 9, 9, 9, 255,
               0, 0, 0, 255, 0, 0, 0, 255, 9, 9, 9, 255,
               0, 0, 0, 255, 0, 0, 0, 255, 9, 9, 9, 255] 3 1 1 > 36"
proof -
  let ?d = "[0, 0, 0, 255, 0, 0, 0, 255, 9, 9, 9, 255,
               0, 0, 0, 255, 0, 0, 0, 255, 9, 9, 9, 255,
               0, 0, 0, 255, 0, 0, 0, 255, 9, 9, 9, 255] :: u8 list"
  define V :: real where "V = 2849934139195393 / 2199023255552"
  have gx: "gradient_x_fl ?d 3 1 1 = 5066549580791809 / 140737488355328"
    by (simp add: gradient_x_fl_def tap_fl_def luminance_fl_def byte_def fl_sobel fl_minus)
  have gy: "gradient_y_fl ?d 3 1 1 = 0"
    by (simp add: gradient_y_fl_def tap_fl_def luminance_fl_def byte_def fl_sobel fl_minus)
  have m: "magnitude_fl ?d 3 1 1 = fl (sqrt V)"
    unfolding magnitude_fl_def gx gy V_def by (simp add: fl_sobel)
  have lo: "36 + 3 / 2 ^ 49 \<le> sqrt V"
    by (rule real_le_rsqrt) (simp add: V_def power2_eq_square)
  have hi: "sqrt V < 64"
    by (rule real_less_lsqrt) (simp_all add: V_def)
  have "sqrt V - 1 / 2 ^ (47 + 1) \<le> fl (sqrt V)"
    using lo hi by (intro fl_ge) simp_all
  then show ?thesis unfolding m using lo by simp
qed

text \<open>
  Columns of black, white and white: the computed gradient at the centre is
  \<open>(1020 - 2 ^ (-43), 2 ^ (-45))\<close> and the computed magnitude is above 50.
\<close>

lemma white_fl:
  "magnitude_fl [0, 0, 0, 255, 255, 255, 255, 255, 255, 255, 255, 255,
               0, 0, 0, 255, 255, 255, 255, 255, 255, 255, 255, 255,
               0, 0, 0, 255, 255, 255, 255, 255, 255, 255, 255, 255] 3 1 1 > 50"
proof -
  let ?d = "[0, 0, 0, 255, 255, 255, 255, 255, 255, 255, 255, 255,
               0, 0, 0, 255, 255, 255, 255, 255, 255, 255, 255, 255,
               0, 0, 0, 255, 255, 255, 255, 255, 255, 255, 255, 255] :: u8 list"
  define V :: real where "V = 4468483974758399 / 4294967296"
  have gx: "gradient_x_fl ?d 3 1 1 = 8972014882652159 / 8796093022208"
    by (simp add: gradient_x_fl_def tap_fl_def luminance_fl_def byte_def fl_sobel fl_minus)
  have gy: "gradient_y_fl ?d 3 1 1 = 1 / 35184372088832"
    by (simp add: gradient_y_fl_def tap_fl_def luminance_fl_def byte_def fl_sobel fl_minus)
  have m: "magnitude_fl ?d 3 1 1 = fl (sqrt V)"
    unfolding magnitude_fl_def gx gy V_def by (simp add: fl_sobel)
  have lo: "1000 \<le> sqrt V"
    by (rule real_le_rsqrt) (simp add: V_def power2_eq_square)
  have hi: "sqrt V < 2048"
    by (rule real_less_lsqrt) (simp_all add: V_def)
  have "sqrt V - 2 ^ 11 / 2 ^ 53 \<le> fl (sqrt V)"
    using lo hi by (intro fl_lower) simp_all
  then show ?thesis unfolding m using lo by simp
qed

text \<open>
  A 3 by 3 buffer whose left column is black and whose other columns are white: the
  centre pixel is an edge at threshold 50; the corner is not.
\<close>

theorem C6_sobel_witness:
  "(3::nat) \<le> 3
   \<and> length (data \<lparr>width = 3, height = 3,
       data = [0, 0, 0, 255, 255, 255, 255, 255, 255, 255, 255, 255,
               0, 0, 0, 255, 255, 255, 255, 255, 255, 255, 255, 255,
               0, 0, 0, 255, 255, 255, 255, 255, 255, 255, 255, 255]\<rparr>) = 4 * 3 * 3
   \<and> interior 3 3 1 1 \<and> \<not> interior 3 3 0 0
   \<and> magnitude_fl (data \<lparr>width = 3, height = 3,
       data = [0, 0, 0, 255, 255, 255, 255, 255, 255, 255, 255, 255,
               0, 0, 0, 255, 255, 255, 255, 255, 255, 255, 255, 255,
               0, 0, 0, 255, 255, 255, 255, 255, 255, 255, 255, 255]\<rparr>) 3 1 1 > 50
   \<and> (\<exists>out. sobelEdges \<lparr>width = 3, height = 3,
       data = [0, 0, 0, 255, 255, 255, 255, 255, 255, 255, 255, 255,
               0, 0, 0, 255, 255, 255, 255, 255, 255, 255, 255, 255,
               0, 0, 0, 255, 255, 255, 255, 255, 255, 255, 255, 255]\<rparr> 3 3 50 = Inr out
        \<and> data out ! (4 * (1 * 3 + 1) + 3) = 255
        \<and> data out ! (4 * (0 * 3 + 0) + 3) = 0)"
proof -
  let ?img = "\<lparr>width = 3, height = 3,
       data = [0, 0, 0, 255, 255, 255, 255, 255, 255, 255, 255, 255,
               0, 0, 0, 255, 255, 255, 255, 255, 255, 255, 255, 255,
               0, 0, 0, 255, 255, 255, 255, 255, 255, 255, 255, 255]\<rparr>"
  have h: "(3::nat) \<le> 3" "length (data ?img) = 4 * 3 * 3" by simp_all
  have i: "interior 3 3 1 1" "\<not> interior 3 3 0 0" by (simp_all add: interior_def)
  have g: "magnitude_fl (data ?img) 3 1 1 > 50"
    using white_fl by (simp only: ImageData.simps)
  from C6_sobel_edges[OF h(1) h(1) h(2), of 50] obtain out where
    out: "sobelEdges ?img 3 3 50 = Inr out"
    and px: "\<forall>x<3. \<forall>y<3.
          data out ! (4 * (y * 3 + x)) = 0
        \<and> data out ! (4 * (y * 3 + x) + 1) = 0
        \<and> data out ! (4 * (y * 3 + x) + 2) = 0
        \<and> (interior 3 3 x y \<longrightarrow>
              (data out ! (4 * (y * 3 + x) + 3) = 255
                 \<longleftrightarrow> magnitude_fl (data ?img) 3 x y > 50)
            \<and> (data out ! (4 * (y * 3 + x) + 3) = 0
                 \<longleftrightarrow> \<not> magnitude_fl (data ?img) 3 x y > 50))
        \<and> (\<not> interior 3 3 x y \<longrightarrow> data out ! (4 * (y * 3 + x) + 3) = 0)"
    by blast
  have "(1::nat) < 3" "(0::nat) < 3" by simp_all
  with px i g have "data out ! (4 * (1 * 3 + 1) + 3) = 255" "data out ! (4 * (0 * 3 + 0) + 3) = 0"
    by blast+
  with out h i g show ?thesis by blast
qed

text \<open>
  C6 as the specification words it fails on a 3 by 3 buffer with columns of grey 0, 0 and
  9 at the threshold 36: the gradient magnitude at the centre is exactly 36, which does
  not exceed the threshold, and \<open>sobelEdges\<close> gives the centre pixel alpha 255.
\<close>

theorem C6_sobel_counterexample:
  "\<not> gradient_magnitude [0, 0, 0, 255, 0, 0, 0, 255, 9, 9, 9, 255,
               0, 0, 0, 255, 0, 0, 0, 255, 9, 9, 9, 255,
               0, 0, 0, 255, 0, 0, 0, 255, 9, 9, 9, 255] 3 1 1 > 36
   \<and> sobelEdges \<lparr>width = 3, height = 3,
       data = [0, 0, 0, 255, 0, 0, 0, 255, 9, 9, 9, 255,
               0, 0, 0, 255, 0, 0, 0, 255, 9, 9, 9, 255,
               0, 0, 0, 255, 0, 0, 0, 255, 9, 9, 9, 255]\<rparr> 3 3 36 =
     Inr \<lparr>width = 3, height = 3,
       data = [0, 0, 0, 0, 0, 0, 0, 0, 0, 0, 0, 0,
               0, 0, 0, 0, 0, 0, 0, 255, 0, 0, 0, 0,
               0, 0, 0, 0, 0, 0, 0, 0, 0, 0, 0, 0]\<rparr>"
proof -
  let ?d = "[0, 0, 0, 255, 0, 0, 0, 255, 9, 9, 9, 255,
               0, 0, 0, 255, 0, 0, 0, 255, 9, 9, 9, 255,
               0, 0, 0, 255, 0, 0, 0, 255, 9, 9, 9, 255] :: u8 list"
  have l: "(replicate 36 0)[16 := 0, 17 := 0, 18 := 0, 19 := 255] =
      [0, 0, 0, 0, 0, 0, 0, 0, 0, 0, 0, 0,
       0, 0, 0, 0, 0, 0, 0, 255, 0, 0, 0, 0,
       0, 0, 0, 0, 0, 0, 0, 0, 0, 0, 0, (0::u8)]"
    by (simp add: eval_nat_numeral)
  have e: "edge_alpha_fl ?d 3 36 1 1 = 255"
    unfolding edge_alpha_fl_def using grey9_fl by (simp only: if_True)
  have a: "\<not> gradient_magnitude ?d 3 1 1 > 36"
    unfolding grey9_exact by simp
  have "sobelEdges \<lparr>width = 3, height = 3, data = ?d\<rparr> 3 3 36 =
    Inr \<lparr>width = 3, height = 3,
         data = (replicate 36 0)[16 := 0, 17 := 0, 18 := 0, 19 := edge_alpha_fl ?d 3 36 1 1]\<rparr>"
    by (rule sobelEdges_3x3) simp
  then have b: "sobelEdges \<lparr>width = 3, height = 3, data = ?d\<rparr> 3 3 36 =
    Inr \<lparr>width = 3, height = 3,
         data = [0, 0, 0, 0, 0, 0, 0, 0, 0, 0, 0, 0,
                 0, 0, 0, 0, 0, 0, 0, 255, 0, 0, 0, 0,
                 0, 0, 0, 0, 0, 0, 0, 0, 0, 0, 0, 0]\<rparr>"
    by (simp only: e l)
  from a b show ?thesis by (rule conjI)
qed

section \<open>Profile import\<close>







end
